theory Spec2Isabelle
  imports Complex_Main "HOL-Library.List_Lexorder" "HOL-Library.Sublist" "HOL-Library.Multiset"
begin

section \<open>Python values used by both scripts\<close>

text \<open>
  A Python \<open>str\<close> is a sequence of Unicode code points, so it is modelled as a list of
  natural numbers; \<open>lit\<close> turns an ASCII literal of the source into such a list.
  The order on \<open>pystr\<close> is the lexicographic order by code point, which is the order
  Python's \<open><\<close> has on \<open>str\<close>.
\<close>

type_synonym pystr = "nat list"

definition lit :: "string \<Rightarrow> pystr" where
  "lit s = map of_char s"

datatype py_error = ValueError | KeyError | AttributeError

subsection \<open>Character classes\<close>

text \<open>
  The classes are those of the Unicode database the interpreter ships (version 14.0):
  \<open>decimal_blocks\<close> lists the first code point of every run of ten decimal digits
  (general category Nd), which is the class \<open>\d\<close> of \<open>re\<close> on a \<open>str\<close> pattern and
  the class \<open>int()\<close> converts; \<open>other_digit_ranges\<close> lists the further characters
  \<open>str.isdigit\<close> accepts (superscripts, circled digits and the like), which \<open>int()\<close>
  rejects; \<open>space_ranges\<close> lists what \<open>str.strip()\<close> removes.
\<close>

definition decimal_blocks :: "nat list" where
  "decimal_blocks =
    [48, 1632, 1776, 1984, 2406, 2534, 2662, 2790, 2918, 3046, 3174, 3302, 3430, 3558,
     3664, 3792, 3872, 4160, 4240, 6112, 6160, 6470, 6608, 6784, 6800, 6992, 7088, 7232,
     7248, 42528, 43216, 43264, 43472, 43504, 43600, 44016, 65296, 66720, 68912, 69734,
     69872, 69942, 70096, 70384, 70736, 70864, 71248, 71360, 71472, 71904, 72016, 72784,
     73040, 73120, 92768, 92864, 93008, 120782, 120792, 120802, 120812, 120822, 123200,
     123632, 125264, 130032]"

definition other_digit_ranges :: "(nat \<times> nat) list" where
  "other_digit_ranges =
    [(178, 179), (185, 185), (4969, 4977), (6618, 6618), (8304, 8304), (8308, 8313),
     (8320, 8329), (9312, 9320), (9332, 9340), (9352, 9360), (9450, 9450), (9461, 9469),
     (9471, 9471), (10102, 10110), (10112, 10120), (10122, 10130), (68160, 68163),
     (69216, 69224), (69714, 69722), (127232, 127242)]"

definition space_ranges :: "(nat \<times> nat) list" where
  "space_ranges =
    [(9, 13), (28, 32), (133, 133), (160, 160), (5760, 5760), (8192, 8202), (8232, 8233),
     (8239, 8239), (8287, 8287), (12288, 12288)]"

definition in_block :: "nat \<Rightarrow> nat \<Rightarrow> bool" where
  "in_block c b = (b \<le> c \<and> c < b + 10)"

definition in_range :: "nat \<Rightarrow> nat \<times> nat \<Rightarrow> bool" where
  "in_range c r = (fst r \<le> c \<and> c \<le> snd r)"

definition is_decimal :: "nat \<Rightarrow> bool" where
  "is_decimal c = list_ex (in_block c) decimal_blocks"

definition is_digit :: "nat \<Rightarrow> bool" where
  "is_digit c = (is_decimal c \<or> list_ex (in_range c) other_digit_ranges)"

definition is_space :: "nat \<Rightarrow> bool" where
  "is_space c = list_ex (in_range c) space_ranges"

definition is_ascii_digit :: "nat \<Rightarrow> bool" where
  "is_ascii_digit c = (48 \<le> c \<and> c \<le> 57)"

text \<open>The value of a decimal digit is its offset in its block of ten.\<close>

definition decimal_value :: "nat \<Rightarrow> nat" where
  "decimal_value c = (case filter (in_block c) decimal_blocks of [] \<Rightarrow> 0 | b # _ \<Rightarrow> c - b)"

subsection \<open>String methods\<close>

text \<open>\<open>s.isdigit()\<close>: at least one character, and every character a digit.\<close>

definition py_isdigit :: "pystr \<Rightarrow> bool" where
  "py_isdigit s = (s \<noteq> [] \<and> list_all is_digit s)"

definition py_isdecimal :: "pystr \<Rightarrow> bool" where
  "py_isdecimal s = (s \<noteq> [] \<and> list_all is_decimal s)"

definition digits_value :: "pystr \<Rightarrow> nat" where
  "digits_value s = foldl (\<lambda>acc c. 10 * acc + decimal_value c) 0 s"

text \<open>
  \<open>int(s)\<close>, for the strings the source passes to it: both call sites test
  \<open>s.isdigit()\<close> first, so \<open>s\<close> has no sign, blank or underscore, and \<open>int\<close> accepts
  it exactly when every character is a decimal digit; otherwise it raises ValueError.
  (The interpreter's configurable cap on the number of digits is outside the model.)
\<close>

definition py_int :: "pystr \<Rightarrow> py_error + int" where
  "py_int s = (if py_isdecimal s then Inr (int (digits_value s)) else Inl ValueError)"

text \<open>\<open>s.strip()\<close>: leading and trailing white space removed.\<close>

definition py_strip :: "pystr \<Rightarrow> pystr" where
  "py_strip s = rev (dropWhile is_space (rev (dropWhile is_space s)))"

text \<open>
  \<open>s.lower()\<close>. Only the ASCII letters are mapped; the case table of the other scripts
  is not modelled, so for names that differ in the case of a letter outside ASCII
  \<open>name_matches\<close> below can miss a match the code finds. No property below depends on
  how letters are lowered: the order of the queries is proved whatever the matching
  yields, and the empty name matches every name.
\<close>

definition lower_cp :: "nat \<Rightarrow> nat" where
  "lower_cp c = (if 65 \<le> c \<and> c \<le> 90 then c + 32 else c)"

definition py_lower :: "pystr \<Rightarrow> pystr" where
  "py_lower s = map lower_cp s"

text \<open>\<open>a in b\<close> on strings: \<open>a\<close> occurs in \<open>b\<close> as a contiguous substring.\<close>

fun py_in :: "pystr \<Rightarrow> pystr \<Rightarrow> bool" where
  "py_in a [] = (a = [])"
| "py_in a (y # ys) = (prefix a (y # ys) \<or> py_in a ys)"

text \<open>\<open>sep.join(parts)\<close>.\<close>

fun py_join :: "pystr \<Rightarrow> pystr list \<Rightarrow> pystr" where
  "py_join sep [] = []"
| "py_join sep [p] = p"
| "py_join sep (p # q # ps) = p @ sep @ py_join sep (q # ps)"

section \<open>scholar\_citations.py: the citation collector\<close>

subsection \<open>Records\<close>

text \<open>
  The dictionary \<open>_parse_citing_paper\<close> returns has the six keys of \<open>paper_fields\<close>;
  \<open>_get_citations_for_paper\<close> then adds \<open>cited_paper\<close>.
\<close>

record paper_fields =
  title :: pystr
  authors :: pystr
  venue :: pystr
  year :: pystr
  link :: pystr
  snippet :: pystr

record citation = paper_fields +
  cited_paper :: pystr

subsection \<open>The year filter of get\_all\_citations\<close>

text \<open>
  The condition of the list comprehension,
  \<^verbatim>\<open>c.get('year') and c['year'].isdigit() and int(c['year']) >= min_year\<close>,
  evaluated left to right: an empty year is falsy, a year that is not digit-only stops
  the conjunction, and only then is \<open>int\<close> called, which may raise.
\<close>

definition keep_citation :: "int \<Rightarrow> citation \<Rightarrow> py_error + bool" where
  "keep_citation min_year c =
     (if year c = [] then Inr False
      else if \<not> py_isdigit (year c) then Inr False
      else (case py_int (year c) of
              Inl e \<Rightarrow> Inl e
            | Inr y \<Rightarrow> Inr (min_year \<le> y)))"

fun comprehension :: "int \<Rightarrow> citation list \<Rightarrow> py_error + citation list" where
  "comprehension min_year [] = Inr []"
| "comprehension min_year (c # cs) =
     (case keep_citation min_year c of
        Inl e \<Rightarrow> Inl e
      | Inr keep \<Rightarrow>
          (case comprehension min_year cs of
             Inl e \<Rightarrow> Inl e
           | Inr kept \<Rightarrow> Inr (if keep then c # kept else kept)))"

text \<open>
  \<^verbatim>\<open>if min_year: citations = [...]\<close>: the comprehension runs only for a truthy
  \<open>min_year\<close>; \<open>None\<close> and \<open>0\<close> are falsy.
\<close>

definition year_filter :: "int option \<Rightarrow> citation list \<Rightarrow> py_error + citation list" where
  "year_filter min_year citations =
     (case min_year of
        None \<Rightarrow> Inr citations
      | Some m \<Rightarrow> if m = 0 then Inr citations else comprehension m citations)"

text \<open>A citation that has the given year and nothing else.\<close>

definition with_year :: "string \<Rightarrow> citation" where
  "with_year y = \<lparr>title = [], authors = [], venue = [], year = lit y, link = [],
                  snippet = [], cited_paper = []\<rparr>"

text \<open>
  What the year filter is said to drop: a record whose year is present, numeric and
  less than the minimum. (Stated from the specification, for comparison with
  \<open>year_filter\<close>.)
\<close>

definition claimed_dropped :: "int \<Rightarrow> citation \<Rightarrow> bool" where
  "claimed_dropped min_year c =
     (year c \<noteq> [] \<and> py_isdecimal (year c) \<and> int (digits_value (year c)) < min_year)"

text \<open>What the comprehension keeps, when no \<open>int\<close> call raises.\<close>

definition kept :: "int \<Rightarrow> citation \<Rightarrow> bool" where
  "kept min_year c = (py_isdigit (year c) \<and> min_year \<le> int (digits_value (year c)))"

text \<open>A year on which \<open>int\<close> is not called, or is called and succeeds.\<close>

definition year_parses :: "citation \<Rightarrow> bool" where
  "year_parses c = (\<not> py_isdigit (year c) \<or> py_isdecimal (year c))"

subsection \<open>The record extractor\<close>

text \<open>
  What \<open>_parse_citing_paper\<close> reads of one result block: the title heading
  (\<open>h3.gs_rt\<close>) with its text and first anchor, the text of the byline (\<open>div.gs_a\<close>) and
  the text of the summary (\<open>div.gs_rs\<close>); each may be missing.
\<close>

datatype anchor = NoAnchor | AnchorWithoutHref | Href pystr

record title_heading =
  heading_text :: pystr
  heading_anchor :: anchor

record result_block =
  heading :: "title_heading option"
  byline :: "pystr option"
  summary :: "pystr option"

text \<open>
  \<open>byline_text.split(' - ')\<close>: cut at every occurrence of the three characters
  blank, hyphen, blank, found from left to right without overlap.
\<close>

fun split_dash :: "pystr \<Rightarrow> pystr \<Rightarrow> pystr list" where
  "split_dash acc (a # b # c # rest) =
     (if a = 32 \<and> b = 45 \<and> c = 32 then rev acc # split_dash [] rest
      else split_dash (a # acc) (b # c # rest))"
| "split_dash acc rest = [rev acc @ rest]"

text \<open>
  The pattern \<^verbatim>\<open>20\d{2}|19\d{2}\<close>: \<open>year_pattern m\<close> says that the pattern matches the
  whole of \<open>m\<close>; \<open>re_search_year\<close> is \<open>re.search\<close>, which returns the match at the
  leftmost position that has one.
\<close>

definition year_pattern :: "pystr \<Rightarrow> bool" where
  "year_pattern m =
     (length m = 4 \<and> (take 2 m = lit ''20'' \<or> take 2 m = lit ''19'')
      \<and> is_decimal (m ! 2) \<and> is_decimal (m ! 3))"

fun re_search_year :: "pystr \<Rightarrow> pystr option" where
  "re_search_year [] = None"
| "re_search_year (x # xs) =
     (if year_pattern (take 4 (x # xs)) then Some (take 4 (x # xs)) else re_search_year xs)"

definition byline_text :: "result_block \<Rightarrow> pystr" where
  "byline_text b = (case byline b of None \<Rightarrow> [] | Some t \<Rightarrow> t)"

text \<open>\<open>title_section.find('a')['href']\<close> raises KeyError on an anchor with no \<open>href\<close>.\<close>

definition link_of :: "title_heading option \<Rightarrow> py_error + pystr" where
  "link_of h =
     (case h of
        None \<Rightarrow> Inr []
      | Some t \<Rightarrow>
          (case heading_anchor t of
             NoAnchor \<Rightarrow> Inr []
           | AnchorWithoutHref \<Rightarrow> Inl KeyError
           | Href u \<Rightarrow> Inr u))"

definition parse_fields :: "result_block \<Rightarrow> py_error + paper_fields" where
  "parse_fields b =
     (case link_of (heading b) of
        Inl e \<Rightarrow> Inl e
      | Inr l \<Rightarrow>
          (let parts = split_dash [] (byline_text b) in
           Inr \<lparr>title = (case heading b of None \<Rightarrow> [] | Some t \<Rightarrow> heading_text t),
                authors = (case parts of [] \<Rightarrow> [] | p # _ \<Rightarrow> p),
                venue = (case parts of _ # q # _ \<Rightarrow> q | _ \<Rightarrow> []),
                year = (case re_search_year (byline_text b) of None \<Rightarrow> [] | Some m \<Rightarrow> m),
                link = l,
                snippet = (case summary b of None \<Rightarrow> [] | Some t \<Rightarrow> t)\<rparr>))"

text \<open>
  \<open>_parse_citing_paper\<close>: any exception is logged and the empty dictionary returned,
  which is \<open>None\<close> here; the caller skips it.
\<close>

definition parse_citing_paper :: "result_block \<Rightarrow> paper_fields option" where
  "parse_citing_paper b = (case parse_fields b of Inl e \<Rightarrow> None | Inr d \<Rightarrow> Some d)"

text \<open>A result block that has the given byline and nothing else.\<close>

definition with_byline :: "pystr \<Rightarrow> result_block" where
  "with_byline t = \<lparr>heading = None, byline = Some t, summary = None\<rparr>"

text \<open>
  The loop over the result blocks of one page in \<open>_get_citations_for_paper\<close>: every
  block is parsed, an empty dictionary is skipped, and \<open>cited_paper\<close> is set on the rest.
\<close>

definition attach :: "pystr \<Rightarrow> paper_fields \<Rightarrow> citation" where
  "attach cited_paper_title d =
     \<lparr>title = title d, authors = authors d, venue = venue d, year = year d, link = link d,
      snippet = snippet d, cited_paper = cited_paper_title\<rparr>"

definition block_citations :: "pystr \<Rightarrow> result_block list \<Rightarrow> citation list" where
  "block_citations cited_paper_title papers =
     map (attach cited_paper_title) (List.map_filter parse_citing_paper papers)"

subsection \<open>Pagination discovery\<close>

text \<open>
  What \<open>_get_total_citation_pages\<close> reads of the parsed first page: the result blocks
  (\<open>div\<close> of class \<open>gs_r gs_or gs_scl\<close>) and, when the page has a pagination footer
  (\<open>div\<close> with id \<open>gs_n\<close>), the texts of the links in it.
\<close>

record page =
  result_blocks :: "result_block list"
  pagination_links :: "pystr list option"

text \<open>\<^verbatim>\<open>[int(p.text) for p in pages if p.text.isdigit()]\<close>, which raises when \<open>int\<close> does.\<close>

fun page_numbers :: "pystr list \<Rightarrow> py_error + int list" where
  "page_numbers [] = Inr []"
| "page_numbers (l # ls) =
     (if py_isdigit l then
        (case py_int l of
           Inl e \<Rightarrow> Inl e
         | Inr n \<Rightarrow> (case page_numbers ls of Inl e \<Rightarrow> Inl e | Inr ns \<Rightarrow> Inr (n # ns)))
      else page_numbers ls)"

text \<open>\<open>max\<close> of a list raises ValueError on the empty list.\<close>

fun py_max :: "int list \<Rightarrow> py_error + int" where
  "py_max [] = Inl ValueError"
| "py_max (x # xs) = Inr (fold max xs x)"

definition max_page_label :: "pystr list \<Rightarrow> py_error + int" where
  "max_page_label pages =
     (case page_numbers pages of Inl e \<Rightarrow> Inl e | Inr ns \<Rightarrow> py_max ns)"

text \<open>
  The inner handler catches ValueError and falls through to \<open>return 1\<close>; the outer
  handler turns any other exception into \<open>0\<close>. A footer tag is truthy whatever it holds;
  the list of its links is truthy when it is not empty.
\<close>

definition get_total_citation_pages :: "page \<Rightarrow> int" where
  "get_total_citation_pages content =
     (if result_blocks content = [] then 0
      else (case pagination_links content of
              None \<Rightarrow> 1
            | Some pages \<Rightarrow>
                if pages = [] then 1
                else (case max_page_label pages of
                        Inr n \<Rightarrow> n
                      | Inl ValueError \<Rightarrow> 1
                      | Inl _ \<Rightarrow> 0)))"

text \<open>The integer a digit-only label denotes.\<close>

definition label_value :: "pystr \<Rightarrow> int" where
  "label_value l = int (digits_value l)"

text \<open>
  What pagination discovery is said to return for a page with a footer, stated from the
  specification: the largest integer among the link labels that denote one.
\<close>

definition claimed_page_count :: "pystr list \<Rightarrow> int" where
  "claimed_page_count labels = Max (set (map label_value (filter py_isdecimal labels)))"

subsection \<open>Accumulation and the final ordering\<close>

text \<open>
  The loop of \<open>get_all_citations\<close> over the author's publications, given the citations
  \<open>_get_citations_for_paper\<close> found for each: they are filtered and appended to
  \<open>all_citations\<close>; an exception inside the \<open>try\<close> is logged and the loop continues with
  the next publication, so the citations of that publication are not appended.
\<close>

fun accumulate :: "int option \<Rightarrow> citation list list \<Rightarrow> citation list" where
  "accumulate min_year [] = []"
| "accumulate min_year (citations # rest) =
     (case year_filter min_year citations of
        Inl e \<Rightarrow> accumulate min_year rest
      | Inr filtered \<Rightarrow> filtered @ accumulate min_year rest)"

text \<open>
  \<^verbatim>\<open>df.sort_values(by=['year', 'title'], ascending=[False, True])\<close>: the rows are
  ordered by the year, largest first, rows of one year by the title, smallest first, and
  rows equal in both keep their order (a sort on several columns is a stable
  lexicographic sort). Both columns hold strings, which compare by code point. It is
  written as two stable passes, the less significant key first; a stable descending pass
  is a stable ascending pass between two reversals.
\<close>

definition sort_descending :: "('a \<Rightarrow> 'k::linorder) \<Rightarrow> 'a list \<Rightarrow> 'a list" where
  "sort_descending f xs = rev (sort_key f (rev xs))"

definition sort_values :: "citation list \<Rightarrow> citation list" where
  "sort_values df = sort_descending year (sort_key title df)"

definition get_all_citations :: "int option \<Rightarrow> citation list list \<Rightarrow> citation list" where
  "get_all_citations min_year found = sort_values (accumulate min_year found)"

text \<open>
  The order the final table is said to have: a later year first, and within a year the
  smaller title first. The empty year is the least string, so it comes last.
\<close>

definition comes_before :: "citation \<Rightarrow> citation \<Rightarrow> bool" where
  "comes_before a b = (year b < year a \<or> (year a = year b \<and> title a \<le> title b))"

text \<open>A citation that has the given year and title and nothing else.\<close>

definition entry :: "string \<Rightarrow> string \<Rightarrow> citation" where
  "entry y t = \<lparr>title = lit t, authors = [], venue = [], year = lit y, link = [],
                snippet = [], cited_paper = []\<rparr>"

subsection \<open>The fetcher\<close>

text \<open>
  What \<open>_make_request\<close> meets: the outcome of the \<open>k\<close>-th call of \<open>session.get\<close>, either a
  response with a status code and a text or an exception, and the \<open>k\<close>-th value of
  \<open>random.random()\<close>, from which \<open>random.uniform(2.0, 4.0)\<close> computes
  \<open>2.0 + (4.0 - 2.0) * random()\<close>. What it does is recorded as the list of its requests
  and waits, in order. Times are real numbers of seconds.
\<close>

datatype response = Status nat pystr | TransportError

datatype fetch_event = Request nat | Sleep real

record network =
  respond :: "nat \<Rightarrow> response"
  variate :: "nat \<Rightarrow> real"

definition get_random_delay :: "network \<Rightarrow> nat \<Rightarrow> real" where
  "get_random_delay net k = 2.0 + (4.0 - 2.0) * variate net k"

text \<open>
  The body of \<^verbatim>\<open>for attempt in range(retries)\<close>, over the attempts still to come;
  \<open>drawn\<close> counts the random values used so far. Status 200 returns the text; status 429
  waits \<open>(attempt + 1) * 60\<close>; any other status only logs a warning; an exception waits
  the random delay unless the attempt is the last.
\<close>

fun attempts :: "network \<Rightarrow> nat \<Rightarrow> nat \<Rightarrow> nat list \<Rightarrow> pystr option \<times> fetch_event list" where
  "attempts net retries drawn [] = (None, [])"
| "attempts net retries drawn (attempt # rest) =
     (case respond net attempt of
        Status code text \<Rightarrow>
          if code = 200 then (Some text, [Request attempt])
          else if code = 429 then
            (let (r, ev) = attempts net retries drawn rest
             in (r, Request attempt # Sleep (real ((attempt + 1) * 60)) # ev))
          else
            (let (r, ev) = attempts net retries drawn rest
             in (r, Request attempt # ev))
      | TransportError \<Rightarrow>
          if int attempt < int retries - 1 then
            (let (r, ev) = attempts net retries (Suc drawn) rest
             in (r, Request attempt # Sleep (get_random_delay net drawn) # ev))
          else
            (let (r, ev) = attempts net retries drawn rest
             in (r, Request attempt # ev)))"

definition make_request :: "network \<Rightarrow> nat \<Rightarrow> pystr option \<times> fetch_event list" where
  "make_request net retries = attempts net retries 0 [0..<retries]"

text \<open>A server that answers 500 once and then 200, and one that times out once.\<close>

definition server_error_then_ok :: network where
  "server_error_then_ok =
     \<lparr>respond = (\<lambda>k. if k = 0 then Status 500 [] else Status 200 (lit ''ok'')),
      variate = (\<lambda>k. 1 / 2)\<rparr>"

definition timeout_then_ok :: network where
  "timeout_then_ok =
     \<lparr>respond = (\<lambda>k. if k = 0 then TransportError else Status 200 (lit ''ok'')),
      variate = (\<lambda>k. 1 / 2)\<rparr>"

section \<open>scrape\_affliations.py: the affiliation resolver\<close>

subsection \<open>The three sources\<close>

text \<open>
  A source is modelled by what it answers to a query: \<open>RequestError\<close> when \<open>requests\<close>
  raises a \<open>RequestException\<close> (in \<open>get\<close>, \<open>raise_for_status\<close> or \<open>json\<close>), which each
  search function catches, or \<open>Reply\<close> with the parts of the JSON body the code reads.
  A source answers a query the same way every time it is asked. A key the code reads
  with \<open>get\<close> is an \<open>option\<close> (\<open>None\<close> when the key is missing); the key \<open>author\<close> of an
  OpenAlex authorship is a \<open>field\<close>, because \<open>null\<close> there makes the code raise. Bodies
  whose values have other types than the code expects are outside the model.
\<close>

datatype 'a field = Absent | Null | Present 'a

datatype 'a reply = RequestError | Reply 'a

record crossref_author =
  given :: "pystr option"
  family :: "pystr option"
  affiliation :: "pystr option list option"

record crossref_item =
  DOI :: "pystr option"
  item_author :: "crossref_author list option"

record oa_institution =
  inst_display_name :: "pystr option"
  city :: "pystr option"
  region :: "pystr option"
  country :: "pystr option"

record oa_authorship =
  oa_author :: "pystr option field"
  institutions :: "oa_institution list option"

record s2_author =
  s2_name :: "pystr option"
  s2_affiliations :: "pystr list option"

record sources =
  crossref :: "pystr \<Rightarrow> crossref_item list option reply"
  openalex :: "pystr \<Rightarrow> oa_authorship list option reply"
  semantic_scholar :: "pystr \<Rightarrow> s2_author list option reply"

subsection \<open>Results, events and the state of a pass\<close>

record affiliation_record =
  paper_title :: pystr
  author :: pystr
  affiliations :: pystr
  doi :: pystr

text \<open>
  What a pass does, in order: the queries it sends, the records it appends to
  \<open>results\<close>, and the checkpoints it writes (each holds the whole of \<open>results\<close>).
\<close>

datatype event =
    AskCrossref pystr
  | AskOpenAlex pystr
  | AskSemanticScholar pystr
  | Append affiliation_record
  | Save "affiliation_record list"

text \<open>
  The output file is \<open>None\<close> when it does not exist. Reading a file gives back the
  records that were written to it; the CSV encoding is not modelled.
\<close>

record run_state =
  results :: "affiliation_record list"
  disk :: "affiliation_record list option"
  log :: "event list"
  papers_processed :: nat
  affiliations_found :: nat

subsection \<open>The search functions\<close>

text \<open>\<open>title.replace("[HTML]", "")\<close>, and \<open>clean_title\<close> for a title that is a string.\<close>

fun remove_html_marker :: "pystr \<Rightarrow> pystr" where
  "remove_html_marker (a # b # c # d # e # f # rest) =
     (if [a, b, c, d, e, f] = lit ''[HTML]'' then remove_html_marker rest
      else a # remove_html_marker (b # c # d # e # f # rest))"
| "remove_html_marker rest = rest"

definition clean_title :: "pystr \<Rightarrow> pystr" where
  "clean_title t = py_strip (remove_html_marker t)"

text \<open>
  \<open>search_crossref\<close>: the reply holds \<open>data["message"]["items"]\<close>, \<open>None\<close> when a key
  is missing, which raises KeyError; that error is not a \<open>RequestException\<close>, so it
  leaves the function.
\<close>

definition search_crossref ::
  "sources \<Rightarrow> pystr \<Rightarrow> event list \<times> (py_error + crossref_item option)" where
  "search_crossref src t =
     ([AskCrossref (clean_title t)],
      (case crossref src (clean_title t) of
         RequestError \<Rightarrow> Inr None
       | Reply None \<Rightarrow> Inl KeyError
       | Reply (Some items) \<Rightarrow> Inr (case items of [] \<Rightarrow> None | item # _ \<Rightarrow> Some item)))"

text \<open>A value read with \<open>get\<close> and tested for truth: kept when present and not empty.\<close>

definition if_truthy :: "pystr option \<Rightarrow> pystr list" where
  "if_truthy v = (case v of None \<Rightarrow> [] | Some s \<Rightarrow> if s = [] then [] else [s])"

definition or_empty :: "pystr option \<Rightarrow> pystr" where
  "or_empty v = (case v of None \<Rightarrow> [] | Some s \<Rightarrow> s)"

definition full_affiliation :: "oa_institution \<Rightarrow> pystr" where
  "full_affiliation i =
     (let location_parts = if_truthy (city i) @ if_truthy (region i) @ if_truthy (country i)
      in if location_parts = [] then or_empty (inst_display_name i)
         else or_empty (inst_display_name i) @ lit '', '' @ py_join (lit '', '') location_parts)"

text \<open>
  \<open>authorship.get("author", {}).get("display_name", "")\<close>: a missing \<open>author\<close> gives
  the empty name, a \<open>null\<close> one raises AttributeError.
\<close>

definition authorship_name :: "oa_authorship \<Rightarrow> py_error + pystr" where
  "authorship_name a =
     (case oa_author a of
        Absent \<Rightarrow> Inr []
      | Null \<Rightarrow> Inl AttributeError
      | Present display_name \<Rightarrow> Inr (or_empty display_name))"

definition authorship_pairs :: "pystr \<Rightarrow> oa_authorship \<Rightarrow> (pystr \<times> pystr) list" where
  "authorship_pairs author_name a =
     map (\<lambda>i. (author_name, full_affiliation i))
       (filter (\<lambda>i. author_name \<noteq> [] \<and> full_affiliation i \<noteq> [])
          (case institutions a of None \<Rightarrow> [] | Some insts \<Rightarrow> insts))"

fun openalex_pairs :: "oa_authorship list \<Rightarrow> py_error + (pystr \<times> pystr) list" where
  "openalex_pairs [] = Inr []"
| "openalex_pairs (a # rest) =
     (case authorship_name a of
        Inl e \<Rightarrow> Inl e
      | Inr author_name \<Rightarrow>
          (case openalex_pairs rest of
             Inl e \<Rightarrow> Inl e
           | Inr others \<Rightarrow> Inr (authorship_pairs author_name a @ others)))"

text \<open>\<open>return affiliations if affiliations else None\<close>.\<close>

definition non_empty :: "'a list \<Rightarrow> 'a list option" where
  "non_empty xs = (if xs = [] then None else Some xs)"

definition search_openalex ::
  "sources \<Rightarrow> pystr \<Rightarrow> event list \<times> (py_error + (pystr \<times> pystr) list option)" where
  "search_openalex src d =
     (if d = [] then ([], Inr None)
      else ([AskOpenAlex d],
            (case openalex src d of
               RequestError \<Rightarrow> Inr None
             | Reply None \<Rightarrow> Inr None
             | Reply (Some authorships) \<Rightarrow>
                 (case openalex_pairs authorships of
                    Inl e \<Rightarrow> Inl e
                  | Inr found \<Rightarrow> Inr (non_empty found)))))"

definition s2_pairs :: "s2_author \<Rightarrow> (pystr \<times> pystr) list" where
  "s2_pairs a =
     map (\<lambda>aff. (or_empty (s2_name a), aff))
       (filter (\<lambda>aff. or_empty (s2_name a) \<noteq> [] \<and> aff \<noteq> [])
          (case s2_affiliations a of None \<Rightarrow> [] | Some affs \<Rightarrow> affs))"

definition search_semantic_scholar ::
  "sources \<Rightarrow> pystr \<Rightarrow> event list \<times> (py_error + (pystr \<times> pystr) list option)" where
  "search_semantic_scholar src d =
     (if d = [] then ([], Inr None)
      else ([AskSemanticScholar d],
            (case semantic_scholar src d of
               RequestError \<Rightarrow> Inr None
             | Reply None \<Rightarrow> Inr None
             | Reply (Some authors_found) \<Rightarrow> Inr (non_empty (concat (map s2_pairs authors_found))))))"

subsection \<open>Resolving one author\<close>

text \<open>
  \<^verbatim>\<open>f"{author.get('given', '')} {author.get('family', '')}".strip()\<close> and the names
  of the affiliation entries that are dictionaries with a \<open>name\<close> (an entry is \<open>Some\<close>
  of its name then, and \<open>None\<close> otherwise).
\<close>

definition author_name :: "crossref_author \<Rightarrow> pystr" where
  "author_name a = py_strip (or_empty (given a) @ lit '' '' @ or_empty (family a))"

definition embedded_affiliations :: "crossref_author \<Rightarrow> pystr list" where
  "embedded_affiliations a =
     (case affiliation a of None \<Rightarrow> [] | Some entries \<Rightarrow> List.map_filter (\<lambda>e. e) entries)"

text \<open>
  \<^verbatim>\<open>name.lower() in aff_author.lower() or aff_author.lower() in name.lower()\<close>, and
  the affiliations of the pairs whose author matches, in order.
\<close>

definition name_matches :: "pystr \<Rightarrow> pystr \<Rightarrow> bool" where
  "name_matches name aff_author =
     (py_in (py_lower name) (py_lower aff_author) \<or> py_in (py_lower aff_author) (py_lower name))"

definition matching :: "pystr \<Rightarrow> (pystr \<times> pystr) list \<Rightarrow> pystr list" where
  "matching name found = map snd (filter (\<lambda>pair. name_matches name (fst pair)) found)"

text \<open>
  One fallback block, \<^verbatim>\<open>if not affiliations and doi: ...\<close>: the source is asked only
  when no affiliation has been collected yet and the DOI is truthy; an exception leaving
  the search function leaves the block as well.
\<close>

definition try_source ::
  "(pystr \<Rightarrow> event list \<times> (py_error + (pystr \<times> pystr) list option)) \<Rightarrow>
     pystr \<Rightarrow> pystr option \<Rightarrow> pystr list \<Rightarrow> event list \<times> (py_error + pystr list)" where
  "try_source search name d affs =
     (case d of
        None \<Rightarrow> ([], Inr affs)
      | Some identifier \<Rightarrow>
          if affs = [] \<and> identifier \<noteq> [] then
            (case search identifier of
               (asked, Inl e) \<Rightarrow> (asked, Inl e)
             | (asked, Inr None) \<Rightarrow> (asked, Inr affs)
             | (asked, Inr (Some found)) \<Rightarrow> (asked, Inr (affs @ matching name found)))
          else ([], Inr affs))"

text \<open>
  The affiliations of one author: those embedded in the Crossref item, else those of
  OpenAlex, else those of Semantic Scholar; with the queries sent on the way.
\<close>

definition resolve_author ::
  "sources \<Rightarrow> pystr option \<Rightarrow> crossref_author \<Rightarrow> event list \<times> (py_error + pystr list)" where
  "resolve_author src d a =
     (case try_source (search_openalex src) (author_name a) d (embedded_affiliations a) of
        (asked, Inl e) \<Rightarrow> (asked, Inl e)
      | (asked, Inr affs) \<Rightarrow>
          (case try_source (search_semantic_scholar src) (author_name a) d affs of
             (asked_next, r) \<Rightarrow> (asked @ asked_next, r)))"

definition record_author ::
  "pystr \<Rightarrow> pystr option \<Rightarrow> crossref_author \<Rightarrow> pystr list \<Rightarrow> affiliation_record" where
  "record_author t d a affs =
     \<lparr>paper_title = t,
      author = author_name a,
      affiliations = (if affs = [] then lit ''Not found'' else py_join (lit ''; '') affs),
      doi = (case d of
               None \<Rightarrow> lit ''Not found''
             | Some identifier \<Rightarrow> if identifier = [] then lit ''Not found'' else identifier)\<rparr>"

subsection \<open>The pass over the papers\<close>

text \<open>
  The body of the loop over the authors: the record is appended to \<open>results\<close> and the
  counter of authors with an affiliation is advanced. When a search raises, the loop is
  left with the state as it is at that moment.
\<close>

definition author_step ::
  "sources \<Rightarrow> pystr \<Rightarrow> pystr option \<Rightarrow> crossref_author \<Rightarrow> run_state
     \<Rightarrow> py_error option \<times> run_state" where
  "author_step src t d a s =
     (case resolve_author src d a of
        (asked, Inl e) \<Rightarrow> (Some e, s\<lparr>log := log s @ asked\<rparr>)
      | (asked, Inr affs) \<Rightarrow>
          (None,
           s\<lparr>results := results s @ [record_author t d a affs],
             log := log s @ asked @ [Append (record_author t d a affs)],
             affiliations_found :=
               (if affs = [] then affiliations_found s else affiliations_found s + 1)\<rparr>))"

fun authors_loop ::
  "sources \<Rightarrow> pystr \<Rightarrow> pystr option \<Rightarrow> crossref_author list \<Rightarrow> run_state
     \<Rightarrow> py_error option \<times> run_state" where
  "authors_loop src t d [] s = (None, s)"
| "authors_loop src t d (a # rest) s =
     (case author_step src t d a s of
        (Some e, s') \<Rightarrow> (Some e, s')
      | (None, s') \<Rightarrow> authors_loop src t d rest s')"

text \<open>\<open>checkpoint_df.to_csv(output_file)\<close>: the file is replaced by all of \<open>results\<close>.\<close>

definition save_checkpoint :: "run_state \<Rightarrow> run_state" where
  "save_checkpoint s = s\<lparr>disk := Some (results s), log := log s @ [Save (results s)]\<rparr>"

text \<open>
  The \<open>try\<close> block of one paper: Crossref is asked; for a paper it knows, every author
  is resolved; then the checkpoint is written. An exception anywhere skips the rest of
  the block, the checkpoint included.
\<close>

definition try_paper :: "sources \<Rightarrow> pystr \<Rightarrow> run_state \<Rightarrow> py_error option \<times> run_state" where
  "try_paper src t s =
     (case search_crossref src t of
        (asked, Inl e) \<Rightarrow> (Some e, s\<lparr>log := log s @ asked\<rparr>)
      | (asked, Inr None) \<Rightarrow> (None, save_checkpoint (s\<lparr>log := log s @ asked\<rparr>))
      | (asked, Inr (Some paper_data)) \<Rightarrow>
          (case authors_loop src t (DOI paper_data)
                  (case item_author paper_data of None \<Rightarrow> [] | Some listed \<Rightarrow> listed)
                  (s\<lparr>log := log s @ asked\<rparr>) of
             (Some e, s') \<Rightarrow> (Some e, s')
           | (None, s') \<Rightarrow> (None, save_checkpoint s')))"

text \<open>
  The loop over the titles: after an exception the handler prints it and continues with
  the next title; otherwise the counter of processed papers is advanced.
\<close>

fun papers_loop :: "sources \<Rightarrow> pystr list \<Rightarrow> run_state \<Rightarrow> run_state" where
  "papers_loop src [] s = s"
| "papers_loop src (t # rest) s =
     (case try_paper src t s of
        (Some e, s') \<Rightarrow> papers_loop src rest s'
      | (None, s') \<Rightarrow> papers_loop src rest (s'\<lparr>papers_processed := papers_processed s' + 1\<rparr>))"

text \<open>
  \<open>process_papers\<close>: \<open>results\<close> starts as the records of the output file when it
  exists, and the titles from \<open>start_index\<close> on are processed.
\<close>

definition loaded :: "affiliation_record list option \<Rightarrow> affiliation_record list" where
  "loaded output_file = (case output_file of None \<Rightarrow> [] | Some existing \<Rightarrow> existing)"

definition process_papers ::
  "sources \<Rightarrow> pystr list \<Rightarrow> nat \<Rightarrow> affiliation_record list option \<Rightarrow> run_state" where
  "process_papers src titles start_index output_file =
     papers_loop src (drop start_index titles)
       \<lparr>results = loaded output_file, disk = output_file, log = [], papers_processed = 0,
        affiliations_found = 0\<rparr>"

subsection \<open>Example sources\<close>

text \<open>
  A Crossref item with the DOI \<open>10.1/x\<close> and four authors: one with an embedded
  affiliation, one that OpenAlex knows, one that only Semantic Scholar knows, and one
  with neither a given nor a family name.
\<close>

definition person :: "string \<Rightarrow> string \<Rightarrow> string list \<Rightarrow> crossref_author" where
  "person g f affs =
     \<lparr>given = Some (lit g), family = Some (lit f),
      affiliation = Some (map (\<lambda>n. Some (lit n)) affs)\<rparr>"

definition nameless :: crossref_author where
  "nameless = \<lparr>given = None, family = None, affiliation = None\<rparr>"

definition example_item :: "crossref_author list \<Rightarrow> crossref_item" where
  "example_item listed = \<lparr>DOI = Some (lit ''10.1/x''), item_author = Some listed\<rparr>"

definition example_sources :: "crossref_author list \<Rightarrow> sources" where
  "example_sources listed =
     \<lparr>crossref = (\<lambda>q. Reply (Some [example_item listed])),
      openalex = (\<lambda>d. Reply (Some
        [\<lparr>oa_author = Present (Some (lit ''bo yu'')),
          institutions = Some [\<lparr>inst_display_name = Some (lit ''ETH''), city = None,
                                region = None, country = Some (lit ''CH'')\<rparr>]\<rparr>])),
      semantic_scholar = (\<lambda>d. Reply (Some
        [\<lparr>s2_name = Some (lit ''Cy Ng''), s2_affiliations = Some [lit ''KTH'']\<rparr>]))\<rparr>"

text \<open>The same, with an OpenAlex body whose authorship has \<open>"author": null\<close>.\<close>

definition broken_sources :: "crossref_author list \<Rightarrow> sources" where
  "broken_sources listed =
     (example_sources listed)
       \<lparr>openalex := (\<lambda>d. Reply (Some [\<lparr>oa_author = Null, institutions = None\<rparr>]))\<rparr>"

text \<open>
  The affiliations OpenAlex yields for an author name, or the exception its search
  raises.
\<close>

definition openalex_matches :: "sources \<Rightarrow> pystr \<Rightarrow> pystr \<Rightarrow> py_error + pystr list" where
  "openalex_matches src name identifier =
     (case snd (search_openalex src identifier) of
        Inl e \<Rightarrow> Inl e
      | Inr None \<Rightarrow> Inr []
      | Inr (Some found) \<Rightarrow> Inr (matching name found))"

definition ada :: crossref_author where
  "ada = person ''Ada'' ''Low'' [''MIT'']"

definition bo :: crossref_author where
  "bo = person ''Bo'' ''Yu'' []"

text \<open>The record of the author \<open>ada\<close> for the paper with the given title.\<close>

definition ada_record_for :: "string \<Rightarrow> affiliation_record" where
  "ada_record_for t = \<lparr>paper_title = lit t, author = lit ''Ada Low'', affiliations = lit ''MIT'',
                        doi = lit ''10.1/x''\<rparr>"

text \<open>
  Sources for which the paper \<open>T\<close> has the authors \<open>ada\<close> and \<open>bo\<close>, every other paper
  has \<open>ada\<close> only, and the OpenAlex search raises: the paper \<open>T\<close> fails at its second
  author.
\<close>

definition mixed_sources :: sources where
  "mixed_sources =
     (broken_sources [ada])
       \<lparr>crossref := (\<lambda>q. if q = lit ''T'' then Reply (Some [example_item [ada, bo]])
                          else Reply (Some [example_item [ada]]))\<rparr>"

subsection \<open>Reading the log of a pass\<close>

text \<open>
  The records appended so far, which is one for every (paper, author) pair that has
  been processed, and the content of the output file after the events of a log.
\<close>

fun appended :: "event list \<Rightarrow> affiliation_record list" where
  "appended [] = []"
| "appended (Append r # es) = r # appended es"
| "appended (e # es) = appended es"

fun disk_after ::
  "affiliation_record list option \<Rightarrow> event list \<Rightarrow> affiliation_record list option" where
  "disk_after output_file [] = output_file"
| "disk_after output_file (Save rs # es) = disk_after (Some rs) es"
| "disk_after output_file (e # es) = disk_after output_file es"

text \<open>
  A log in which every checkpoint write holds exactly the records so far and extends
  what the file held before; \<open>on_disk\<close> and \<open>so_far\<close> are the content of the file and
  the records at the start of the log.
\<close>

fun writes_extend ::
  "affiliation_record list \<Rightarrow> affiliation_record list \<Rightarrow> event list \<Rightarrow> bool" where
  "writes_extend on_disk so_far [] = True"
| "writes_extend on_disk so_far (Save rs # es) =
     (rs = so_far \<and> prefix on_disk rs \<and> writes_extend rs so_far es)"
| "writes_extend on_disk so_far (Append r # es) = writes_extend on_disk (so_far @ [r]) es"
| "writes_extend on_disk so_far (e # es) = writes_extend on_disk so_far es"

text \<open>
  A log in which every query to Semantic Scholar comes right after the query to OpenAlex
  for the same DOI; \<open>previous\<close> is the event before the log.
\<close>

fun queries_in_order :: "event option \<Rightarrow> event list \<Rightarrow> bool" where
  "queries_in_order previous [] = True"
| "queries_in_order previous (AskSemanticScholar d # es) =
     (previous = Some (AskOpenAlex d) \<and> queries_in_order (Some (AskSemanticScholar d)) es)"
| "queries_in_order previous (e # es) = queries_in_order (Some e) es"

definition pass_invariant :: "affiliation_record list option \<Rightarrow> run_state \<Rightarrow> bool" where
  "pass_invariant output_file s =
     (results s = loaded output_file @ appended (log s)
      \<and> disk s = disk_after output_file (log s)
      \<and> writes_extend (loaded output_file) (loaded output_file) (log s))"

text \<open>The checkpoint writes among the events, and a result that is an exception.\<close>

definition is_save :: "event \<Rightarrow> bool" where
  "is_save e = (case e of Save rs \<Rightarrow> True | _ \<Rightarrow> False)"

definition raises :: "py_error + 'a \<Rightarrow> bool" where
  "raises r = (case r of Inl e \<Rightarrow> True | Inr v \<Rightarrow> False)"

text \<open>
  A paper whose \<open>try\<close> block runs to its end: the Crossref search does not raise, and
  the resolution of no listed author raises.
\<close>

definition paper_completes :: "sources \<Rightarrow> pystr \<Rightarrow> bool" where
  "paper_completes src t =
     (case snd (search_crossref src t) of
        Inl e \<Rightarrow> False
      | Inr None \<Rightarrow> True
      | Inr (Some paper_data) \<Rightarrow>
          list_all (\<lambda>a. \<not> raises (snd (resolve_author src (DOI paper_data) a)))
            (case item_author paper_data of None \<Rightarrow> [] | Some listed \<Rightarrow> listed))"

text \<open>
  What the checkpoint is said to satisfy at every point in time, stated from the
  specification: after every prefix of the log, the file holds as many records as it
  held at the start plus one for every pair processed so far.
\<close>

definition claimed_length_invariant ::
  "affiliation_record list option \<Rightarrow> event list \<Rightarrow> bool" where
  "claimed_length_invariant output_file events =
     list_all (\<lambda>n. length (loaded (disk_after output_file (take n events)))
                     = length (loaded output_file) + length (appended (take n events)))
       [0..<Suc (length events)]"

section \<open>Properties of the citation collector\<close>

lemma is_decimal_ascii: "is_ascii_digit c \<Longrightarrow> is_decimal c"
  by (simp add: is_ascii_digit_def is_decimal_def decimal_blocks_def in_block_def)

text \<open>
  C9. When the minimum year is \<open>None\<close> or \<open>0\<close> the filter is skipped and every record
  is kept; the comprehension itself, run with the bound \<open>0\<close>, would drop a record whose
  year is empty, so \<open>0\<close> does not act as a numeric bound.
\<close>

theorem year_filter_falsy_min_year:
  "year_filter None cs = Inr cs
   \<and> year_filter (Some 0) cs = Inr cs
   \<and> comprehension 0 [with_year ''''] = Inr []"
  by (simp add: year_filter_def keep_citation_def with_year_def lit_def)

lemmas digit_tables = is_digit_def is_decimal_def decimal_blocks_def other_digit_ranges_def
  in_block_def in_range_def decimal_value_def

lemmas digit_strings = lit_def py_isdigit_def py_isdecimal_def digits_value_def py_int_def

lemma keep_citation_kept: "year_parses c \<Longrightarrow> keep_citation m c = Inr (kept m c)"
  by (auto simp: keep_citation_def kept_def year_parses_def py_int_def py_isdigit_def)

lemma comprehension_filter:
  "list_all year_parses cs \<Longrightarrow> comprehension m cs = Inr (filter (kept m) cs)"
  by (induction cs) (simp_all add: keep_citation_kept)

text \<open>
  C1, as stated, fails: with years \<open>2020\<close>, \<open>2018\<close>, empty and \<open>abc\<close> and the minimum
  2019, the filter keeps the \<open>2020\<close> record only: the records with an empty or a
  non-numeric year, said never to be dropped, are dropped as well.
\<close>

theorem year_filter_drops_unparsed_counterexample:
  "year_filter (Some 2019) (map with_year [''2020'', ''2018'', '''', ''abc''])
     = Inr [with_year ''2020'']
   \<and> filter (\<lambda>c. \<not> claimed_dropped 2019 c) (map with_year [''2020'', ''2018'', '''', ''abc''])
     = [with_year ''2020'', with_year '''', with_year ''abc'']"
  by (simp add: digit_tables digit_strings with_year_def keep_citation_def year_filter_def
      claimed_dropped_def)

text \<open>
  C1, amended: for a minimum year that is set (neither \<open>None\<close> nor \<open>0\<close>), the filter
  keeps, in order, exactly the records whose year is a non-empty digit-only string of
  value at least the minimum; a record whose year is empty or not numeric is dropped.
  This is for records on whose year \<open>int\<close> does not raise, as is the case for every year
  the record extractor produces (\<open>extracted_year_parses\<close> below).
\<close>

theorem year_filter_keeps_numeric_at_least:
  assumes "m \<noteq> 0" and "list_all year_parses cs"
  shows "year_filter (Some m) cs = Inr (filter (kept m) cs)"
  using assms by (simp add: year_filter_def comprehension_filter)

theorem year_filter_keeps_numeric_at_least_witness:
  "(2019::int) \<noteq> 0
   \<and> list_all year_parses (map with_year [''2020'', ''2018'', '''', ''abc''])
   \<and> year_filter (Some 2019) (map with_year [''2020'', ''2018'', '''', ''abc''])
       = Inr [with_year ''2020'']"
  using year_filter_keeps_numeric_at_least
    [of 2019 "map with_year [''2020'', ''2018'', '''', ''abc'']"]
  by (simp add: digit_tables digit_strings with_year_def year_parses_def kept_def)

subsection \<open>The year of a parsed record\<close>

lemma re_search_year_None:
  "re_search_year b = None \<longleftrightarrow> (\<forall>i. \<not> year_pattern (take 4 (drop i b)))"
proof (induction b)
  case Nil
  show ?case by (simp add: year_pattern_def)
next
  case (Cons x xs)
  show ?case
  proof (cases "year_pattern (take 4 (x # xs))")
    case True
    have "\<exists>i. year_pattern (take 4 (drop i (x # xs)))"
      by (rule exI [of _ 0]) (use True in simp)
    with True show ?thesis by simp
  next
    case False
    have "(\<forall>i. \<not> year_pattern (take 4 (drop i (x # xs)))) \<longleftrightarrow>
          (\<forall>i. \<not> year_pattern (take 4 (drop i xs)))"
    proof
      assume h: "\<forall>i. \<not> year_pattern (take 4 (drop i (x # xs)))"
      show "\<forall>i. \<not> year_pattern (take 4 (drop i xs))"
      proof
        fix i
        from h have "\<not> year_pattern (take 4 (drop (Suc i) (x # xs)))" by blast
        then show "\<not> year_pattern (take 4 (drop i xs))" by simp
      qed
    next
      assume h: "\<forall>i. \<not> year_pattern (take 4 (drop i xs))"
      show "\<forall>i. \<not> year_pattern (take 4 (drop i (x # xs)))"
      proof
        fix i
        show "\<not> year_pattern (take 4 (drop i (x # xs)))"
          using False h by (cases i) simp_all
      qed
    qed
    with False Cons.IH show ?thesis by simp
  qed
qed

lemma re_search_year_Some:
  "re_search_year b = Some m \<Longrightarrow>
     \<exists>i. m = take 4 (drop i b) \<and> year_pattern m
         \<and> (\<forall>j<i. \<not> year_pattern (take 4 (drop j b)))"
proof (induction b)
  case Nil
  then show ?case by simp
next
  case (Cons x xs)
  show ?case
  proof (cases "year_pattern (take 4 (x # xs))")
    case True
    with Cons.prems have "m = take 4 (drop 0 (x # xs))" by simp
    moreover from True Cons.prems have "year_pattern m" by simp
    ultimately show ?thesis by blast
  next
    case False
    with Cons.prems have "re_search_year xs = Some m" by simp
    from Cons.IH [OF this] obtain i where
      i: "m = take 4 (drop i xs)" "year_pattern m"
         "\<forall>j<i. \<not> year_pattern (take 4 (drop j xs))" by blast
    have "\<forall>j<Suc i. \<not> year_pattern (take 4 (drop j (x # xs)))"
    proof (intro allI impI)
      fix j assume "j < Suc i"
      then show "\<not> year_pattern (take 4 (drop j (x # xs)))"
        using False i(3) by (cases j) simp_all
    qed
    moreover have "m = take 4 (drop (Suc i) (x # xs))" using i(1) by simp
    ultimately show ?thesis using i(2) by blast
  qed
qed

lemma decimal_below_128: "is_decimal c \<Longrightarrow> c < 128 \<Longrightarrow> is_ascii_digit c"
  by (auto simp: is_decimal_def decimal_blocks_def in_block_def is_ascii_digit_def)

lemma year_pattern_decimal: "year_pattern m \<Longrightarrow> py_isdecimal m"
proof -
  assume h: "year_pattern m"
  then obtain a b c d where m: "m = [a, b, c, d]"
    by (auto simp: year_pattern_def length_Suc_conv numeral_eq_Suc)
  have "is_decimal 50" "is_decimal 48" "is_decimal 49" "is_decimal 57"
    by (simp_all add: is_decimal_def decimal_blocks_def in_block_def)
  with h m show ?thesis
    by (auto simp: year_pattern_def py_isdecimal_def lit_def)
qed

lemma parsed_year:
  "parse_citing_paper b = Some d \<Longrightarrow>
     year d = (case re_search_year (byline_text b) of None \<Rightarrow> [] | Some m \<Rightarrow> m)"
  by (auto simp: parse_citing_paper_def parse_fields_def Let_def split: sum.splits)

text \<open>
  C6, amended: the year of a parsed record is the match of the pattern at the leftmost
  position of the byline that has one, and empty when no position has one. A match is
  four characters, \<open>19\<close> or \<open>20\<close> followed by two decimal digits of any script; when
  the byline is ASCII, these are four ASCII digits.
\<close>

theorem parsed_year_first_match:
  assumes "parse_citing_paper b = Some d"
  shows "((year d = [] \<and> (\<forall>i. \<not> year_pattern (take 4 (drop i (byline_text b)))))
          \<or> (\<exists>i. year d = take 4 (drop i (byline_text b)) \<and> year_pattern (year d)
                 \<and> (\<forall>j<i. \<not> year_pattern (take 4 (drop j (byline_text b))))))
         \<and> (list_all (\<lambda>c. c < 128) (byline_text b) \<longrightarrow> list_all is_ascii_digit (year d))"
proof (cases "re_search_year (byline_text b)")
  case None
  with assms have "year d = []" by (simp add: parsed_year)
  moreover from None have "\<forall>i. \<not> year_pattern (take 4 (drop i (byline_text b)))"
    by (simp add: re_search_year_None)
  ultimately show ?thesis by simp
next
  case (Some m)
  with assms have y: "year d = m" by (simp add: parsed_year)
  from re_search_year_Some [OF Some] obtain i where
    i: "m = take 4 (drop i (byline_text b))" "year_pattern m"
       "\<forall>j<i. \<not> year_pattern (take 4 (drop j (byline_text b)))" by blast
  have ascii: "list_all is_ascii_digit m" if a: "list_all (\<lambda>c. c < 128) (byline_text b)"
  proof -
    have "set m \<subseteq> set (byline_text b)"
      using i(1) by (metis set_take_subset set_drop_subset subset_trans)
    with a have small: "\<forall>c\<in>set m. c < 128" by (auto simp: list_all_iff)
    from year_pattern_decimal [OF i(2)] have "\<forall>c\<in>set m. is_decimal c"
      by (simp add: py_isdecimal_def list_all_iff)
    with small show ?thesis by (auto simp: list_all_iff intro: decimal_below_128)
  qed
  have ex: "\<exists>i. year d = take 4 (drop i (byline_text b)) \<and> year_pattern (year d)
             \<and> (\<forall>j<i. \<not> year_pattern (take 4 (drop j (byline_text b))))"
    unfolding y using i by (intro exI [of _ i]) simp
  have "list_all (\<lambda>c. c < 128) (byline_text b) \<longrightarrow> list_all is_ascii_digit (year d)"
    unfolding y using ascii by (intro impI)
  with ex show ?thesis by (intro conjI disjI2)
qed

lemmas parse_simps = parse_citing_paper_def parse_fields_def link_of_def byline_text_def with_byline_def
  year_pattern_def

theorem parsed_year_first_match_witness:
  "parse_citing_paper (with_byline (lit ''J Doe - Nature 2019 - 2020''))
     = Some \<lparr>title = [], authors = lit ''J Doe'', venue = lit ''Nature 2019'',
             year = lit ''2019'', link = [], snippet = []\<rparr>
   \<and> list_all (\<lambda>c. c < 128) (lit ''J Doe - Nature 2019 - 2020'')
   \<and> list_all is_ascii_digit (lit ''2019'')"
  using parsed_year_first_match
    [of "with_byline (lit ''J Doe - Nature 2019 - 2020'')"
        "\<lparr>title = [], authors = lit ''J Doe'', venue = lit ''Nature 2019'',
             year = lit ''2019'', link = [], snippet = []\<rparr>"]
  by (simp add: parse_simps lit_def is_decimal_def decimal_blocks_def in_block_def)

text \<open>
  C6, as stated, fails: \<open>\d\<close> accepts the decimal digits of every script, so the byline
  \<open>20\<close> followed by ARABIC-INDIC DIGIT TWO and THREE (code points 1634 and 1635) gives a
  year of four characters that are not four ASCII digits.
\<close>

theorem parsed_year_non_ascii_counterexample:
  "map_option year (parse_citing_paper (with_byline [50, 48, 1634, 1635]))
     = Some [50, 48, 1634, 1635]
   \<and> \<not> list_all is_ascii_digit [50, 48, 1634, 1635]"
  by (simp add: parse_simps lit_def is_decimal_def decimal_blocks_def in_block_def is_ascii_digit_def)

lemma extracted_year_parses:
  "parse_citing_paper b = Some d \<Longrightarrow> year_parses (attach t d)"
proof -
  assume h: "parse_citing_paper b = Some d"
  show ?thesis
  proof (cases "re_search_year (byline_text b)")
    case None
    with h have "year d = []" by (simp add: parsed_year)
    then show ?thesis by (simp add: year_parses_def attach_def py_isdigit_def)
  next
    case (Some m)
    with h have "year d = m" by (simp add: parsed_year)
    moreover from re_search_year_Some [OF Some] have "year_pattern m" by blast
    ultimately show ?thesis
      by (simp add: year_parses_def attach_def year_pattern_decimal)
  qed
qed

text \<open>
  So the year filter never raises on the citations extracted from a page, and keeps
  exactly those with a year of value at least the minimum.
\<close>

lemma block_citations_parse:
  "list_all year_parses (block_citations t blocks)"
  by (induction blocks)
     (auto simp: block_citations_def List.map_filter_simps extracted_year_parses
        split: option.splits)

lemma year_filter_on_extracted:
  "m \<noteq> 0 \<Longrightarrow>
     year_filter (Some m) (block_citations t blocks)
       = Inr (filter (kept m) (block_citations t blocks))"
  by (simp add: year_filter_def comprehension_filter block_citations_parse)

subsection \<open>Pagination discovery\<close>

lemma isdecimal_isdigit: "py_isdecimal s \<Longrightarrow> py_isdigit s"
  by (auto simp: py_isdecimal_def py_isdigit_def is_digit_def list_all_iff)

lemma page_numbers_ok:
  "list_all py_isdecimal (filter py_isdigit ls) \<Longrightarrow>
     page_numbers ls = Inr (map label_value (filter py_isdigit ls))"
  by (induction ls) (auto simp: py_int_def label_value_def isdecimal_isdigit split: if_splits)

lemma page_numbers_raises:
  "\<not> list_all py_isdecimal (filter py_isdigit ls) \<Longrightarrow> page_numbers ls = Inl ValueError"
  by (induction ls) (auto simp: py_int_def isdecimal_isdigit split: sum.splits if_splits)

lemma py_max_Max: "xs \<noteq> [] \<Longrightarrow> py_max xs = Inr (Max (set xs))"
  by (cases xs) (simp_all add: Max.set_eq_fold [symmetric])

text \<open>
  C4, amended: pagination discovery returns 0 for a page with no result block, and 1 for
  a page with a result block and no pagination footer. For a page with a result block
  and a footer, it returns the largest integer among the digit-only link labels when
  there is such a label and \<open>int\<close> accepts each of them; when the footer has no
  digit-only label, or has one that \<open>int\<close> rejects, the ValueError is caught and the
  result is 1.
\<close>

theorem total_pages_discovery:
  "(result_blocks p = [] \<longrightarrow> get_total_citation_pages p = 0)
   \<and> (result_blocks p \<noteq> [] \<and> pagination_links p = None \<longrightarrow> get_total_citation_pages p = 1)
   \<and> (result_blocks p \<noteq> [] \<and> pagination_links p = Some labels
        \<and> filter py_isdigit labels \<noteq> [] \<and> list_all py_isdecimal (filter py_isdigit labels)
      \<longrightarrow> get_total_citation_pages p = Max (set (map label_value (filter py_isdigit labels))))
   \<and> (result_blocks p \<noteq> [] \<and> pagination_links p = Some labels
        \<and> (filter py_isdigit labels = [] \<or> \<not> list_all py_isdecimal (filter py_isdigit labels))
      \<longrightarrow> get_total_citation_pages p = 1)"
proof (intro conjI impI)
  assume "result_blocks p = []"
  then show "get_total_citation_pages p = 0" by (simp add: get_total_citation_pages_def)
next
  assume "result_blocks p \<noteq> [] \<and> pagination_links p = None"
  then show "get_total_citation_pages p = 1" by (simp add: get_total_citation_pages_def)
next
  assume h: "result_blocks p \<noteq> [] \<and> pagination_links p = Some labels
        \<and> filter py_isdigit labels \<noteq> [] \<and> list_all py_isdecimal (filter py_isdigit labels)"
  then have "labels \<noteq> []" by auto
  moreover from h have "max_page_label labels
      = Inr (Max (set (map label_value (filter py_isdigit labels))))"
    by (simp add: max_page_label_def page_numbers_ok py_max_Max)
  ultimately show "get_total_citation_pages p
      = Max (set (map label_value (filter py_isdigit labels)))"
    using h by (simp add: get_total_citation_pages_def)
next
  assume h: "result_blocks p \<noteq> [] \<and> pagination_links p = Some labels
        \<and> (filter py_isdigit labels = [] \<or> \<not> list_all py_isdecimal (filter py_isdigit labels))"
  have "labels \<noteq> [] \<Longrightarrow> max_page_label labels = Inl ValueError"
  proof (cases "list_all py_isdecimal (filter py_isdigit labels)")
    case True
    with h have "filter py_isdigit labels = []" by blast
    with True show ?thesis by (simp add: max_page_label_def page_numbers_ok)
  next
    case False
    then show ?thesis by (simp add: max_page_label_def page_numbers_raises)
  qed
  with h show "get_total_citation_pages p = 1"
    by (cases "labels = []") (simp_all add: get_total_citation_pages_def)
qed


lemmas page_simps = lit_def py_isdigit_def py_isdecimal_def is_digit_def is_decimal_def
  decimal_blocks_def other_digit_ranges_def in_block_def in_range_def label_value_def
  digits_value_def decimal_value_def

theorem total_pages_discovery_witness:
  "get_total_citation_pages \<lparr>result_blocks = [], pagination_links = Some [lit ''7'']\<rparr> = 0
   \<and> get_total_citation_pages \<lparr>result_blocks = [with_byline []], pagination_links = None\<rparr> = 1
   \<and> get_total_citation_pages
        \<lparr>result_blocks = [with_byline []],
         pagination_links = Some [lit ''1'', lit ''2'', lit ''5'']\<rparr> = 5
   \<and> get_total_citation_pages
        \<lparr>result_blocks = [with_byline []], pagination_links = Some [lit ''Next'']\<rparr> = 1"
  using total_pages_discovery
      [of "\<lparr>result_blocks = [], pagination_links = Some [lit ''7'']\<rparr>" "[]"]
    total_pages_discovery
      [of "\<lparr>result_blocks = [with_byline []], pagination_links = None\<rparr>" "[]"]
    total_pages_discovery
      [of "\<lparr>result_blocks = [with_byline []],
            pagination_links = Some [lit ''1'', lit ''2'', lit ''5'']\<rparr>"
          "[lit ''1'', lit ''2'', lit ''5'']"]
    total_pages_discovery
      [of "\<lparr>result_blocks = [with_byline []], pagination_links = Some [lit ''Next'']\<rparr>"
          "[lit ''Next'']"]
  by (simp add: page_simps)

text \<open>
  C4, as stated, fails: \<open>isdigit\<close> accepts SUPERSCRIPT TWO (code point 178), which
  \<open>int\<close> rejects. With the labels \<open>1\<close>, \<open>2\<close>, \<open>5\<close> and that superscript, every label
  is digit-only and the largest integer among them is 5, but the ValueError of \<open>int\<close> is
  caught and the page count is 1.
\<close>

theorem total_pages_superscript_counterexample:
  "get_total_citation_pages
     \<lparr>result_blocks = [with_byline []],
      pagination_links = Some [lit ''1'', lit ''2'', lit ''5'', [178]]\<rparr> = 1
   \<and> list_all py_isdigit [lit ''1'', lit ''2'', lit ''5'', [178]]
   \<and> claimed_page_count [lit ''1'', lit ''2'', lit ''5'', [178]] = 5"
  by (simp add: get_total_citation_pages_def max_page_label_def claimed_page_count_def page_simps
      py_int_def)

subsection \<open>The final ordering\<close>

lemma sort_descending_stable:
  "filter (\<lambda>c. f c = k) (sort_descending f xs) = filter (\<lambda>c. f c = k) xs"
  by (simp add: sort_descending_def rev_filter [symmetric] sort_key_stable)

lemma sort_descending_sorted:
  "sorted_wrt (\<lambda>a b. f b \<le> f a) (sort_descending f xs)"
proof -
  have "sorted_wrt (\<lambda>a b. f a \<le> f b) (sort_key f (rev xs))"
    using sorted_sort_key [of f "rev xs"] by (simp add: sorted_map)
  then show ?thesis by (simp add: sort_descending_def sorted_wrt_rev)
qed

lemma lexicographic_from_groups:
  fixes f :: "'a \<Rightarrow> 'k::linorder" and g :: "'a \<Rightarrow> 'l::linorder"
  shows "sorted_wrt (\<lambda>a b. f b \<le> f a) xs \<Longrightarrow>
   (\<And>k. sorted_wrt (\<lambda>a b. g a \<le> g b) (filter (\<lambda>c. f c = k) xs)) \<Longrightarrow>
   sorted_wrt (\<lambda>a b. f b < f a \<or> (f a = f b \<and> g a \<le> g b)) xs"
proof (induction xs)
  case Nil
  show ?case by simp
next
  case (Cons x xs)
  have tail: "sorted_wrt (\<lambda>a b. f b < f a \<or> (f a = f b \<and> g a \<le> g b)) xs"
  proof (rule Cons.IH)
    from Cons.prems(1) show "sorted_wrt (\<lambda>a b. f b \<le> f a) xs" by simp
  next
    fix k
    from Cons.prems(2) [of k] show "sorted_wrt (\<lambda>a b. g a \<le> g b) (filter (\<lambda>c. f c = k) xs)"
      by (cases "f x = k") simp_all
  qed
  have head: "f y < f x \<or> (f x = f y \<and> g x \<le> g y)" if y: "y \<in> set xs" for y
  proof (cases "f x = f y")
    case True
    from Cons.prems(2) [of "f x"] have "\<forall>z\<in>set (filter (\<lambda>c. f c = f x) xs). g x \<le> g z"
      by simp
    with y True show ?thesis by simp
  next
    case False
    moreover from Cons.prems(1) y have "f y \<le> f x" by simp
    ultimately show ?thesis by auto
  qed
  from head tail show ?case by simp
qed

lemma sort_values_groups:
  "filter (\<lambda>c. year c = k) (sort_values df) = filter (\<lambda>c. year c = k) (sort_key title df)"
  by (simp add: sort_values_def sort_descending_stable)

lemma sort_values_sorted: "sorted_wrt comes_before (sort_values df)"
proof -
  have "sorted_wrt (\<lambda>a b. year b \<le> year a) (sort_values df)"
    by (simp add: sort_values_def sort_descending_sorted)
  moreover have "sorted_wrt (\<lambda>a b. title a \<le> title b) (filter (\<lambda>c. year c = k) (sort_values df))"
    for k
  proof -
    have "sorted_wrt (\<lambda>a b. title a \<le> title b) (sort_key title df)"
      using sorted_sort_key [of title df] by (simp add: sorted_map)
    then show ?thesis by (simp add: sort_values_groups sorted_wrt_filter)
  qed
  ultimately have "sorted_wrt (\<lambda>a b. year b < year a \<or> (year a = year b \<and> title a \<le> title b))
      (sort_values df)"
    by (rule lexicographic_from_groups)
  then show ?thesis by (simp add: comes_before_def [abs_def])
qed

lemma sort_values_stable:
  "filter (\<lambda>c. year c = y \<and> title c = t) (sort_values df)
     = filter (\<lambda>c. year c = y \<and> title c = t) df"
proof -
  have "filter (\<lambda>c. year c = y \<and> title c = t) (sort_values df)
      = filter (\<lambda>c. title c = t) (filter (\<lambda>c. year c = y) (sort_values df))"
    by (simp add: conj_commute)
  also have "\<dots> = filter (\<lambda>c. title c = t) (filter (\<lambda>c. year c = y) (sort_key title df))"
    by (simp only: sort_values_groups)
  also have "\<dots> = filter (\<lambda>c. year c = y) (filter (\<lambda>c. title c = t) (sort_key title df))"
    by (simp add: conj_commute)
  also have "\<dots> = filter (\<lambda>c. year c = y) (filter (\<lambda>c. title c = t) df)"
    by (simp only: sort_key_stable)
  also have "\<dots> = filter (\<lambda>c. year c = y \<and> title c = t) df"
    by (simp add: conj_commute)
  finally show ?thesis .
qed

lemma sort_values_mset: "mset (sort_values df) = mset df"
  by (simp add: sort_values_def sort_descending_def)

lemma sort_values_missing_last:
  assumes "i < j" and "j < length (sort_values df)" and "year (sort_values df ! i) = []"
  shows "year (sort_values df ! j) = []"
proof -
  from sort_values_sorted [of df] assms(1,2)
  have "comes_before (sort_values df ! i) (sort_values df ! j)"
    by (simp add: sorted_wrt_iff_nth_less)
  with assms(3) show ?thesis by (auto simp: comes_before_def)
qed

text \<open>
  C5. The final ordering is sorted by year descending and, within a year, by title
  ascending; it is a rearrangement of the accumulated records; it is stable (records with
  the same year and title keep their relative order); and once a record with the empty
  year occurs, every later record has the empty year, so missing years sort last.
\<close>

theorem sort_values_order:
  "sorted_wrt comes_before (sort_values df)
   \<and> mset (sort_values df) = mset df
   \<and> filter (\<lambda>c. year c = y \<and> title c = t) (sort_values df)
       = filter (\<lambda>c. year c = y \<and> title c = t) df
   \<and> (i < j \<and> j < length (sort_values df) \<and> year (sort_values df ! i) = []
        \<longrightarrow> year (sort_values df ! j) = [])"
  using sort_values_sorted sort_values_mset sort_values_stable sort_values_missing_last
  by blast


theorem sort_values_order_witness:
  "sort_values [entry ''2019'' ''B'', entry ''2020'' ''A'', entry '''' ''C'']
     = [entry ''2020'' ''A'', entry ''2019'' ''B'', entry '''' ''C'']
   \<and> sorted_wrt comes_before [entry ''2020'' ''A'', entry ''2019'' ''B'', entry '''' ''C'']
   \<and> (1::nat) < 2
   \<and> year ([entry ''2020'' ''A'', entry ''2019'' ''B'', entry '''' ''C''] ! 2) = []"
  using sort_values_order
    [of "[entry ''2019'' ''B'', entry ''2020'' ''A'', entry '''' ''C'']" "[]" "[]" 1 2]
  by (simp add: sort_values_def sort_descending_def entry_def lit_def comes_before_def)

subsection \<open>The fetcher\<close>

lemma get_random_delay_bounds:
  "0 \<le> variate net k \<Longrightarrow> variate net k < 1 \<Longrightarrow>
     2 \<le> get_random_delay net k \<and> get_random_delay net k \<le> 4"
  by (simp add: get_random_delay_def)

lemma upt_three: "[0..<3] = [0, 1, 2]"
  by (simp add: upt_rec)

text \<open>
  After an exception on an attempt that is not the last, the random delay is waited
  before the next attempt.
\<close>

lemma attempts_transport_error:
  assumes "respond net a = TransportError" and "Suc a < retries"
  shows "\<exists>r ev. attempts net retries drawn (a # rest)
           = (r, Request a # Sleep (get_random_delay net drawn) # ev)"
  using assms by (auto split: prod.splits)

lemma retry_after_transport_error_delayed:
  "make_request timeout_then_ok 3 = (Some (lit ''ok''), [Request 0, Sleep 3, Request 1])"
  by (simp add: make_request_def timeout_then_ok_def upt_three get_random_delay_def)

text \<open>
  After a status that is neither 200 nor 429, nothing is waited: the next thing the
  fetcher does is whatever the remaining attempts do.
\<close>

lemma attempts_other_status:
  assumes "respond net a = Status code text" and "code \<noteq> 200" and "code \<noteq> 429"
  shows "attempts net retries drawn (a # rest)
           = (fst (attempts net retries drawn rest),
              Request a # snd (attempts net retries drawn rest))"
  using assms by (auto split: prod.splits)

text \<open>
  C2. The claim asks for a delay between 2 and 4 seconds after every failed attempt but
  the last, also when the failure is a status other than 200 and 429. With three
  attempts allowed and a server that answers 500 and then 200, the fetcher sends the
  second request at once: its trace has no wait at all.
\<close>

theorem retry_after_status_without_delay:
  "make_request server_error_then_ok 3 = (Some (lit ''ok''), [Request 0, Request 1])"
  by (simp add: make_request_def server_error_then_ok_def upt_three)

section \<open>Properties of the affiliation resolver\<close>

subsection \<open>The fallback chain\<close>

lemma search_openalex_asked:
  "identifier \<noteq> [] \<Longrightarrow> fst (search_openalex src identifier) = [AskOpenAlex identifier]"
  by (simp add: search_openalex_def)

lemma search_semantic_scholar_asked:
  "identifier \<noteq> [] \<Longrightarrow>
     fst (search_semantic_scholar src identifier) = [AskSemanticScholar identifier]"
  by (simp add: search_semantic_scholar_def)

lemma try_source_skipped:
  "affs \<noteq> [] \<or> if_truthy d = [] \<Longrightarrow> try_source search name d affs = ([], Inr affs)"
  by (auto simp: try_source_def if_truthy_def split: option.splits if_splits)

lemma try_source_asked:
  "identifier \<noteq> [] \<Longrightarrow>
   try_source search name (Some identifier) [] =
     (fst (search identifier),
      (case snd (search identifier) of
         Inl e \<Rightarrow> Inl e
       | Inr None \<Rightarrow> Inr []
       | Inr (Some found) \<Rightarrow> Inr (matching name found)))"
  by (cases "search identifier") (auto simp: try_source_def split: sum.splits option.splits)

lemma author_step_log:
  "log (snd (author_step src t d a s)) =
     log s @ fst (resolve_author src d a)
       @ (case snd (resolve_author src d a) of
            Inl e \<Rightarrow> []
          | Inr affs \<Rightarrow> [Append (record_author t d a affs)])"
  by (cases "resolve_author src d a") (auto simp: author_step_def split: sum.splits)

lemma resolve_embedded:
  "embedded_affiliations a \<noteq> [] \<Longrightarrow>
     resolve_author src d a = ([], Inr (embedded_affiliations a))"
  by (simp add: resolve_author_def try_source_skipped)

lemma resolve_no_identifier:
  "if_truthy d = [] \<Longrightarrow> resolve_author src d a = ([], Inr (embedded_affiliations a))"
  by (simp add: resolve_author_def try_source_skipped)

lemma resolve_openalex_raises:
  assumes "embedded_affiliations a = []" and "identifier \<noteq> []"
    and "openalex_matches src (author_name a) identifier = Inl e"
  shows "resolve_author src (Some identifier) a = ([AskOpenAlex identifier], Inl e)"
  using assms
  by (auto simp: resolve_author_def try_source_asked search_openalex_asked openalex_matches_def
      split: sum.splits option.splits)

lemma resolve_openalex_matches:
  assumes "embedded_affiliations a = []" and "identifier \<noteq> []"
    and "openalex_matches src (author_name a) identifier = Inr affs" and "affs \<noteq> []"
  shows "resolve_author src (Some identifier) a = ([AskOpenAlex identifier], Inr affs)"
  using assms
  by (auto simp: resolve_author_def try_source_asked search_openalex_asked openalex_matches_def
      try_source_skipped split: sum.splits option.splits)

lemma resolve_openalex_nothing:
  assumes "embedded_affiliations a = []" and "identifier \<noteq> []"
    and "openalex_matches src (author_name a) identifier = Inr []"
  shows "resolve_author src (Some identifier) a =
     ([AskOpenAlex identifier, AskSemanticScholar identifier],
      (case snd (search_semantic_scholar src identifier) of
         Inl e \<Rightarrow> Inl e
       | Inr None \<Rightarrow> Inr []
       | Inr (Some found) \<Rightarrow> Inr (matching (author_name a) found)))"
  using assms
  by (auto simp: resolve_author_def try_source_asked search_openalex_asked openalex_matches_def
      search_semantic_scholar_asked split: sum.splits option.splits)

lemma queries_in_order_append:
  "queries_in_order p l \<Longrightarrow> (\<And>q. queries_in_order q l') \<Longrightarrow> queries_in_order p (l @ l')"
  by (induction p l rule: queries_in_order.induct) simp_all

lemma try_source_cases:
  "try_source search name d affs = ([], Inr affs)
   \<or> (\<exists>ident. d = Some ident \<and> ident \<noteq> [] \<and> affs = []
        \<and> fst (try_source search name d affs) = fst (search ident))"
  by (cases "search (the d)")
     (auto simp: try_source_def split: option.splits sum.splits)

lemma resolve_author_asks:
  "fst (resolve_author src d a) = []
   \<or> (\<exists>ident. fst (resolve_author src d a) = [AskOpenAlex ident])
   \<or> (\<exists>ident. fst (resolve_author src d a) = [AskOpenAlex ident, AskSemanticScholar ident])"
proof (cases "embedded_affiliations a \<noteq> [] \<or> if_truthy d = []")
  case True
  then show ?thesis by (auto simp: resolve_embedded resolve_no_identifier)
next
  case False
  then obtain ident where d: "d = Some ident" "ident \<noteq> []"
    by (auto simp: if_truthy_def split: option.splits if_splits)
  from False have e: "embedded_affiliations a = []" by simp
  show ?thesis
  proof (cases "openalex_matches src (author_name a) ident")
    case (Inl err)
    with d e show ?thesis by (simp add: resolve_openalex_raises)
  next
    case (Inr affs)
    with d e show ?thesis
      by (cases "affs = []") (simp_all add: resolve_openalex_matches resolve_openalex_nothing)
  qed
qed

lemma resolve_author_in_order: "queries_in_order q (fst (resolve_author src d a))"
  using resolve_author_asks [of src d a] by auto

lemma author_step_in_order:
  assumes "queries_in_order None (log s)"
  shows "queries_in_order None (log (snd (author_step src t d a s)))"
proof -
  have "queries_in_order q
      (fst (resolve_author src d a)
        @ (case snd (resolve_author src d a) of
             Inl e \<Rightarrow> []
           | Inr affs \<Rightarrow> [Append (record_author t d a affs)]))" for q
    by (rule queries_in_order_append [OF resolve_author_in_order])
       (simp split: sum.splits)
  with assms show ?thesis
    unfolding author_step_log by (rule queries_in_order_append)
qed

lemma authors_loop_in_order:
  "queries_in_order None (log s) \<Longrightarrow>
     queries_in_order None (log (snd (authors_loop src t d listed s)))"
proof (induction listed arbitrary: s)
  case Nil
  then show ?case by simp
next
  case (Cons a rest)
  from author_step_in_order [OF Cons.prems, of src t d a]
  have i: "queries_in_order None (log (snd (author_step src t d a s)))" .
  show ?case
  proof (cases "author_step src t d a s")
    case (Pair e s')
    with i have i': "queries_in_order None (log s')" by simp
    show ?thesis
    proof (cases e)
      case None
      with Pair Cons.IH [OF i'] show ?thesis by simp
    next
      case (Some err)
      with Pair i' show ?thesis by simp
    qed
  qed
qed

lemma save_checkpoint_in_order:
  "queries_in_order None (log s) \<Longrightarrow> queries_in_order None (log (save_checkpoint s))"
  by (simp add: save_checkpoint_def queries_in_order_append)

lemma try_paper_in_order:
  assumes "queries_in_order None (log s)"
  shows "queries_in_order None (log (snd (try_paper src t s)))"
proof (cases "search_crossref src t")
  case (Pair asked r)
  then have "asked = [AskCrossref (clean_title t)]" by (simp add: search_crossref_def)
  with assms have i: "queries_in_order None (log (s\<lparr>log := log s @ asked\<rparr>))"
    by (simp add: queries_in_order_append)
  show ?thesis
  proof (cases r)
    case (Inl e)
    with Pair i show ?thesis by (simp add: try_paper_def)
  next
    case (Inr found)
    show ?thesis
    proof (cases found)
      case None
      with Pair Inr save_checkpoint_in_order [OF i] show ?thesis by (simp add: try_paper_def)
    next
      case (Some paper_data)
      let ?listed = "case item_author paper_data of None \<Rightarrow> [] | Some listed \<Rightarrow> listed"
      from authors_loop_in_order [OF i, of src t "DOI paper_data" ?listed]
      have j: "queries_in_order None
          (log (snd (authors_loop src t (DOI paper_data) ?listed (s\<lparr>log := log s @ asked\<rparr>))))" .
      show ?thesis
      proof (cases "authors_loop src t (DOI paper_data) ?listed (s\<lparr>log := log s @ asked\<rparr>)")
        case (Pair e s')
        with j have j': "queries_in_order None (log s')" by simp
        from Pair \<open>search_crossref src t = (asked, r)\<close> Inr Some j'
          save_checkpoint_in_order [OF j']
        show ?thesis by (cases e) (simp_all add: try_paper_def)
      qed
    qed
  qed
qed

lemma papers_loop_in_order:
  "queries_in_order None (log s) \<Longrightarrow> queries_in_order None (log (papers_loop src ts s))"
proof (induction ts arbitrary: s)
  case Nil
  then show ?case by simp
next
  case (Cons t rest)
  from try_paper_in_order [OF Cons.prems, of src t]
  have i: "queries_in_order None (log (snd (try_paper src t s)))" .
  show ?case
  proof (cases "try_paper src t s")
    case (Pair e s')
    with i have i': "queries_in_order None (log s')" by simp
    then have "queries_in_order None (log (s'\<lparr>papers_processed := papers_processed s' + 1\<rparr>))"
      by simp
    from Cons.IH [OF this] Cons.IH [OF i'] Pair show ?thesis by (cases e) simp_all
  qed
qed

lemma pass_queries_in_order:
  "queries_in_order None (log (process_papers src titles start_index output_file))"
  unfolding process_papers_def by (rule papers_loop_in_order) simp

text \<open>
  C7. For every author of every paper, the step of the pass appends to the log exactly
  the queries of \<open>resolve_author\<close> and then the record. With an embedded affiliation no
  source is asked. Without one and with a DOI, OpenAlex is asked first; Semantic Scholar
  is asked after it, and only when OpenAlex gave no affiliation for a matching name;
  when OpenAlex gave one (or its search raised), Semantic Scholar is not asked. In the
  log of a whole pass, every query to Semantic Scholar comes right after the query to
  OpenAlex for the same DOI.
\<close>

theorem fallback_order:
  "log (snd (author_step src t d a s)) =
     log s @ fst (resolve_author src d a)
       @ (case snd (resolve_author src d a) of
            Inl e \<Rightarrow> []
          | Inr affs \<Rightarrow> [Append (record_author t d a affs)])
   \<and> (embedded_affiliations a \<noteq> [] \<longrightarrow> fst (resolve_author src d a) = [])
   \<and> (embedded_affiliations a = [] \<and> d = Some identifier \<and> identifier \<noteq> []
        \<and> openalex_matches src (author_name a) identifier = Inr []
      \<longrightarrow> fst (resolve_author src d a) = [AskOpenAlex identifier, AskSemanticScholar identifier])
   \<and> (embedded_affiliations a = [] \<and> d = Some identifier \<and> identifier \<noteq> []
        \<and> openalex_matches src (author_name a) identifier \<noteq> Inr []
      \<longrightarrow> fst (resolve_author src d a) = [AskOpenAlex identifier])
   \<and> queries_in_order None (log (process_papers src titles start_index output_file))"
proof (intro conjI impI)
  show "log (snd (author_step src t d a s)) =
     log s @ fst (resolve_author src d a)
       @ (case snd (resolve_author src d a) of
            Inl e \<Rightarrow> []
          | Inr affs \<Rightarrow> [Append (record_author t d a affs)])"
    by (rule author_step_log)
next
  assume "embedded_affiliations a \<noteq> []"
  then show "fst (resolve_author src d a) = []" by (simp add: resolve_embedded)
next
  assume "embedded_affiliations a = [] \<and> d = Some identifier \<and> identifier \<noteq> []
        \<and> openalex_matches src (author_name a) identifier = Inr []"
  then show "fst (resolve_author src d a) = [AskOpenAlex identifier, AskSemanticScholar identifier]"
    by (simp add: resolve_openalex_nothing)
next
  assume h: "embedded_affiliations a = [] \<and> d = Some identifier \<and> identifier \<noteq> []
        \<and> openalex_matches src (author_name a) identifier \<noteq> Inr []"
  show "fst (resolve_author src d a) = [AskOpenAlex identifier]"
  proof (cases "openalex_matches src (author_name a) identifier")
    case (Inl e)
    with h show ?thesis by (simp add: resolve_openalex_raises)
  next
    case (Inr affs)
    with h have "affs \<noteq> []" by auto
    with h Inr show ?thesis by (simp add: resolve_openalex_matches)
  qed
next
  show "queries_in_order None (log (process_papers src titles start_index output_file))"
    by (rule pass_queries_in_order)
qed

lemmas source_simps = example_sources_def example_item_def person_def nameless_def broken_sources_def
  search_openalex_def search_semantic_scholar_def openalex_pairs.simps authorship_name_def
  authorship_pairs_def full_affiliation_def if_truthy_def or_empty_def non_empty_def s2_pairs_def
  openalex_matches_def matching_def name_matches_def py_lower_def lower_cp_def author_name_def
  embedded_affiliations_def py_strip_def is_space_def space_ranges_def in_range_def lit_def
  List.map_filter_def

lemma example_openalex_knows_bo: "openalex_matches (example_sources []) (author_name (person ''Bo'' ''Yu'' [])) (lit ''10.1/x'') = Inr [lit ''ETH, CH'']"
  by (simp add: source_simps)

lemma example_openalex_misses_cy: "openalex_matches (example_sources []) (author_name (person ''Cy'' ''Ng'' [])) (lit ''10.1/x'') = Inr []"
  by (simp add: source_simps)

theorem fallback_order_witness:
  "fst (resolve_author (example_sources []) (Some (lit ''10.1/x'')) (person ''Ada'' ''Low'' [''MIT''])) = []
   \<and> fst (resolve_author (example_sources []) (Some (lit ''10.1/x'')) (person ''Bo'' ''Yu'' []))
       = [AskOpenAlex (lit ''10.1/x'')]
   \<and> fst (resolve_author (example_sources []) (Some (lit ''10.1/x'')) (person ''Cy'' ''Ng'' []))
       = [AskOpenAlex (lit ''10.1/x''), AskSemanticScholar (lit ''10.1/x'')]"
  using fallback_order [of "example_sources []" "[]" "Some (lit ''10.1/x'')" "person ''Ada'' ''Low'' [''MIT'']" "\<lparr>results = [], disk = None, log = [], papers_processed = 0, affiliations_found = 0\<rparr>" "lit ''10.1/x''"]
    fallback_order [of "example_sources []" "[]" "Some (lit ''10.1/x'')" "person ''Bo'' ''Yu'' []" "\<lparr>results = [], disk = None, log = [], papers_processed = 0, affiliations_found = 0\<rparr>" "lit ''10.1/x''"]
    fallback_order [of "example_sources []" "[]" "Some (lit ''10.1/x'')" "person ''Cy'' ''Ng'' []" "\<lparr>results = [], disk = None, log = [], papers_processed = 0, affiliations_found = 0\<rparr>" "lit ''10.1/x''"]
  by (simp add: example_openalex_knows_bo example_openalex_misses_cy) (simp add: source_simps)

subsection \<open>An author without a name\<close>

lemma py_in_sublist: "py_in a b \<longleftrightarrow> sublist a b"
  by (induction b) (auto simp: sublist_Cons_right)

lemma py_in_empty: "py_in [] s"
  by (cases s) simp_all

lemma matching_empty_name: "matching [] found = map snd found"
  by (simp add: matching_def name_matches_def py_lower_def py_in_empty)

lemma nameless_name: "given a = None \<Longrightarrow> family a = None \<Longrightarrow> author_name a = []"
  by (simp add: author_name_def or_empty_def lit_def py_strip_def is_space_def space_ranges_def
      in_range_def)

lemma search_openalex_found:
  "snd (search_openalex src identifier) = Inr (Some found) \<Longrightarrow> found \<noteq> []"
  by (auto simp: search_openalex_def non_empty_def split: if_splits reply.splits option.splits sum.splits)

lemma search_semantic_scholar_found:
  "snd (search_semantic_scholar src identifier) = Inr (Some found) \<Longrightarrow> found \<noteq> []"
  by (auto simp: search_semantic_scholar_def non_empty_def split: if_splits reply.splits option.splits)

lemma author_step_results:
  "resolve_author src d a = (asked, Inr affs) \<Longrightarrow>
     results (snd (author_step src t d a s)) = results s @ [record_author t d a affs]"
  by (simp add: author_step_def)

text \<open>
  C10. An author whom Crossref lists with neither a given nor a family name gets the
  empty name. The empty string occurs in every name, so when such an author has no
  embedded affiliation and the paper has a DOI, every affiliation OpenAlex returns is
  joined into the author's record, and Semantic Scholar is not asked; when OpenAlex
  returns nothing, every affiliation Semantic Scholar returns is joined into it.
\<close>

theorem nameless_author_collects_all:
  assumes "given a = None" and "family a = None"
    and "embedded_affiliations a = []" and "identifier \<noteq> []"
  shows "author_name a = []
   \<and> (snd (search_openalex src identifier) = Inr (Some found) \<longrightarrow>
        fst (resolve_author src (Some identifier) a) = [AskOpenAlex identifier]
        \<and> results (snd (author_step src t (Some identifier) a s))
            = results s @ [\<lparr>paper_title = t, author = [],
                             affiliations = py_join (lit ''; '') (map snd found),
                             doi = identifier\<rparr>])
   \<and> (snd (search_openalex src identifier) = Inr None
        \<and> snd (search_semantic_scholar src identifier) = Inr (Some found) \<longrightarrow>
        fst (resolve_author src (Some identifier) a)
            = [AskOpenAlex identifier, AskSemanticScholar identifier]
        \<and> results (snd (author_step src t (Some identifier) a s))
            = results s @ [\<lparr>paper_title = t, author = [],
                             affiliations = py_join (lit ''; '') (map snd found),
                             doi = identifier\<rparr>])"
proof (intro conjI impI)
  show name: "author_name a = []" using assms(1,2) by (rule nameless_name)
  {
    assume h: "snd (search_openalex src identifier) = Inr (Some found)"
    then have ne: "found \<noteq> []" by (rule search_openalex_found)
    from h have "openalex_matches src (author_name a) identifier = Inr (map snd found)"
      by (simp add: openalex_matches_def name matching_empty_name)
    with ne assms(3,4)
    have r: "resolve_author src (Some identifier) a = ([AskOpenAlex identifier], Inr (map snd found))"
      by (simp add: resolve_openalex_matches)
    then show "fst (resolve_author src (Some identifier) a) = [AskOpenAlex identifier]" by simp
    from author_step_results [OF r] ne name assms(4)
    show "results (snd (author_step src t (Some identifier) a s))
            = results s @ [\<lparr>paper_title = t, author = [],
                             affiliations = py_join (lit ''; '') (map snd found),
                             doi = identifier\<rparr>]"
      by (simp add: record_author_def)
  }
  {
    assume h: "snd (search_openalex src identifier) = Inr None
        \<and> snd (search_semantic_scholar src identifier) = Inr (Some found)"
    then have "snd (search_semantic_scholar src identifier) = Inr (Some found)" by simp
    then have ne: "found \<noteq> []" by (rule search_semantic_scholar_found)
    from h have "openalex_matches src (author_name a) identifier = Inr []"
      by (simp add: openalex_matches_def)
    with assms(3,4) h
    have r: "resolve_author src (Some identifier) a
        = ([AskOpenAlex identifier, AskSemanticScholar identifier], Inr (map snd found))"
      by (simp add: resolve_openalex_nothing name matching_empty_name)
    then show "fst (resolve_author src (Some identifier) a)
        = [AskOpenAlex identifier, AskSemanticScholar identifier]" by simp
    from author_step_results [OF r] ne name assms(4)
    show "results (snd (author_step src t (Some identifier) a s))
            = results s @ [\<lparr>paper_title = t, author = [],
                             affiliations = py_join (lit ''; '') (map snd found),
                             doi = identifier\<rparr>]"
      by (simp add: record_author_def)
  }
qed



theorem nameless_author_collects_all_witness:
  "given nameless = None \<and> family nameless = None \<and> embedded_affiliations nameless = []
   \<and> lit ''10.1/x'' \<noteq> []
   \<and> snd (search_openalex (example_sources []) (lit ''10.1/x''))
       = Inr (Some [(lit ''bo yu'', lit ''ETH, CH'')])
   \<and> results (snd (author_step (example_sources []) (lit ''T'') (Some (lit ''10.1/x'')) nameless
         \<lparr>results = [], disk = None, log = [], papers_processed = 0, affiliations_found = 0\<rparr>))
       = [\<lparr>paper_title = lit ''T'', author = [], affiliations = lit ''ETH, CH'',
           doi = lit ''10.1/x''\<rparr>]"
  using nameless_author_collects_all
    [of nameless "lit ''10.1/x''" "example_sources []" "[(lit ''bo yu'', lit ''ETH, CH'')]"
        "lit ''T''"
        "\<lparr>results = [], disk = None, log = [], papers_processed = 0, affiliations_found = 0\<rparr>"]
  by (simp add: source_simps)

subsection \<open>Rerunning a pass\<close>

lemma author_step_shift:
  assumes "results s' = pre @ results s"
  shows "fst (author_step src t d a s') = fst (author_step src t d a s)
         \<and> results (snd (author_step src t d a s')) = pre @ results (snd (author_step src t d a s))"
  using assms
  by (cases "resolve_author src d a") (auto simp: author_step_def split: sum.splits)

lemma authors_loop_shift:
  assumes "results s' = pre @ results s"
  shows "fst (authors_loop src t d listed s') = fst (authors_loop src t d listed s)
         \<and> results (snd (authors_loop src t d listed s'))
             = pre @ results (snd (authors_loop src t d listed s))"
  using assms
proof (induction listed arbitrary: s s')
  case Nil
  then show ?case by simp
next
  case (Cons a rest)
  from author_step_shift [OF Cons.prems, of src t d a]
  have f: "fst (author_step src t d a s') = fst (author_step src t d a s)"
    and r: "results (snd (author_step src t d a s'))
             = pre @ results (snd (author_step src t d a s))" by simp_all
  show ?case
  proof (cases "fst (author_step src t d a s)")
    case None
    with f have "fst (author_step src t d a s') = None" by simp
    with None Cons.IH [OF r] show ?thesis
      by (cases "author_step src t d a s"; cases "author_step src t d a s'") simp
  next
    case (Some e)
    with f have "fst (author_step src t d a s') = Some e" by simp
    with Some r show ?thesis
      by (cases "author_step src t d a s"; cases "author_step src t d a s'") simp
  qed
qed

lemma try_paper_shift:
  assumes "results s' = pre @ results s"
  shows "fst (try_paper src t s') = fst (try_paper src t s)
         \<and> results (snd (try_paper src t s')) = pre @ results (snd (try_paper src t s))"
proof (cases "search_crossref src t")
  case (Pair asked r)
  show ?thesis
  proof (cases r)
    case (Inl e)
    with Pair assms show ?thesis by (simp add: try_paper_def)
  next
    case (Inr found)
    show ?thesis
    proof (cases found)
      case None
      with Pair Inr assms show ?thesis by (simp add: try_paper_def save_checkpoint_def)
    next
      case (Some paper_data)
      let ?listed = "case item_author paper_data of None \<Rightarrow> [] | Some listed \<Rightarrow> listed"
      let ?s = "s\<lparr>log := log s @ asked\<rparr>" and ?s' = "s'\<lparr>log := log s' @ asked\<rparr>"
      have "results ?s' = pre @ results ?s" using assms by simp
      from authors_loop_shift [OF this, of src t "DOI paper_data" ?listed]
      have f: "fst (authors_loop src t (DOI paper_data) ?listed ?s')
                = fst (authors_loop src t (DOI paper_data) ?listed ?s)"
        and r: "results (snd (authors_loop src t (DOI paper_data) ?listed ?s'))
                = pre @ results (snd (authors_loop src t (DOI paper_data) ?listed ?s))"
        by simp_all
      show ?thesis
        using Pair Inr Some f r
        by (cases "authors_loop src t (DOI paper_data) ?listed ?s";
            cases "authors_loop src t (DOI paper_data) ?listed ?s'")
           (auto simp: try_paper_def save_checkpoint_def split: option.splits)
    qed
  qed
qed

lemma papers_loop_shift:
  assumes "results s' = pre @ results s"
  shows "results (papers_loop src ts s') = pre @ results (papers_loop src ts s)"
  using assms
proof (induction ts arbitrary: s s')
  case Nil
  then show ?case by simp
next
  case (Cons t rest)
  from try_paper_shift [OF Cons.prems, of src t]
  have f: "fst (try_paper src t s') = fst (try_paper src t s)"
    and r: "results (snd (try_paper src t s')) = pre @ results (snd (try_paper src t s))"
    by simp_all
  obtain e1 s1 where p1: "try_paper src t s = (e1, s1)" by (cases "try_paper src t s")
  obtain e2 s2 where p2: "try_paper src t s' = (e2, s2)" by (cases "try_paper src t s'")
  from f r p1 p2 have e: "e2 = e1" and rs: "results s2 = pre @ results s1" by simp_all
  show ?case
  proof (cases e1)
    case None
    have "results (s2\<lparr>papers_processed := papers_processed s2 + 1\<rparr>)
        = pre @ results (s1\<lparr>papers_processed := papers_processed s1 + 1\<rparr>)"
      using rs by simp
    from Cons.IH [OF this] None e p1 p2 show ?thesis by simp
  next
    case (Some err)
    from Cons.IH [OF rs] Some e p1 p2 show ?thesis by simp
  qed
qed

text \<open>
  C3, amended: a pass that finds an output file starts from the records of the file and
  appends to them what a pass without the file appends; records are written once more
  for every paper from \<open>start_index\<close> on. So a rerun with \<open>start_index = 0\<close> against
  the file of a complete pass holds every pair of the file a second time, when the
  sources answer as before.
\<close>

theorem rerun_appends_again:
  "results (process_papers src titles start_index (Some existing))
     = existing @ results (process_papers src titles start_index None)"
  unfolding process_papers_def
  by (rule papers_loop_shift) (simp add: loaded_def)

lemmas pass_simps = process_papers_def loaded_def try_paper_def search_crossref_def clean_title_def
  author_step_def resolve_author_def try_source_def record_author_def save_checkpoint_def
  ada_def bo_def ada_record_for_def

lemma example_first_run:
  "process_papers (example_sources [ada]) [lit ''T''] 0 None
     = \<lparr>results = [ada_record_for ''T''], disk = Some [ada_record_for ''T''],
        log = [AskCrossref (lit ''T''), Append (ada_record_for ''T''), Save [ada_record_for ''T'']],
        papers_processed = 1, affiliations_found = 1\<rparr>"
  by (simp add: pass_simps source_simps)

text \<open>
  C3, as stated, fails: after a complete pass over one paper with one author, a rerun
  with \<open>start_index = 0\<close> against the file that pass wrote ends with the pair twice.
\<close>

theorem rerun_duplicates_counterexample:
  "disk (process_papers (example_sources [ada]) [lit ''T''] 0 None) = Some [ada_record_for ''T'']
   \<and> results (process_papers (example_sources [ada]) [lit ''T''] 0 (Some [ada_record_for ''T'']))
       = [ada_record_for ''T'', ada_record_for ''T'']
   \<and> \<not> distinct (map (\<lambda>r. (paper_title r, author r)) [ada_record_for ''T'', ada_record_for ''T''])"
  by (simp add: pass_simps source_simps)

theorem rerun_appends_again_witness:
  "results (process_papers (example_sources [ada]) [lit ''T''] 0 (Some [ada_record_for ''T'']))
     = [ada_record_for ''T''] @ results (process_papers (example_sources [ada]) [lit ''T''] 0 None)"
  by (rule rerun_appends_again)

subsection \<open>The checkpoint file\<close>

lemma appended_append: "appended (l @ l') = appended l @ appended l'"
  by (induction l rule: appended.induct) simp_all

lemma disk_after_append: "disk_after stored (l @ l') = disk_after (disk_after stored l) l'"
  by (induction stored l rule: disk_after.induct) simp_all

lemma loaded_disk_after: "loaded (disk_after stored l) = loaded (disk_after (Some (loaded stored)) l)"
  by (induction stored l rule: disk_after.induct) (simp_all add: loaded_def)

lemma writes_extend_append:
  "writes_extend on_disk so_far (l @ l') \<longleftrightarrow>
     writes_extend on_disk so_far l
     \<and> writes_extend (loaded (disk_after (Some on_disk) l)) (so_far @ appended l) l'"
  by (induction on_disk so_far l rule: writes_extend.induct) (auto simp: loaded_def)

lemma writes_extend_prefix:
  "writes_extend on_disk so_far l \<Longrightarrow> prefix on_disk so_far \<Longrightarrow>
     prefix (loaded (disk_after (Some on_disk) l)) (so_far @ appended l)"
  by (induction on_disk so_far l rule: writes_extend.induct) (auto simp: loaded_def)


lemma search_queries_only:
  "appended (fst (search_openalex src d)) = [] \<and> disk_after f (fst (search_openalex src d)) = f
   \<and> writes_extend x y (fst (search_openalex src d))"
  "appended (fst (search_semantic_scholar src d)) = []
   \<and> disk_after f (fst (search_semantic_scholar src d)) = f
   \<and> writes_extend x y (fst (search_semantic_scholar src d))"
  by (simp_all add: search_openalex_def search_semantic_scholar_def)

lemma try_source_queries_only:
  assumes "\<And>d f x y. appended (fst (search d)) = [] \<and> disk_after f (fst (search d)) = f
              \<and> writes_extend x y (fst (search d))"
  shows "appended (fst (try_source search name d affs)) = []
         \<and> disk_after f (fst (try_source search name d affs)) = f
         \<and> writes_extend x y (fst (try_source search name d affs))"
proof (cases d)
  case None
  then show ?thesis by (simp add: try_source_def)
next
  case (Some ident)
  show ?thesis
  proof (cases "affs = [] \<and> ident \<noteq> []")
    case False
    with Some show ?thesis by (auto simp: try_source_def)
  next
    case True
    obtain asked r where s: "search ident = (asked, r)" by (cases "search ident")
    with assms [of ident f x y] have
      "appended asked = [] \<and> disk_after f asked = f \<and> writes_extend x y asked" by simp
    with Some True s show ?thesis
      by (auto simp: try_source_def split: sum.splits option.splits)
  qed
qed

lemma resolve_queries_only:
  "appended (fst (resolve_author src d a)) = []
   \<and> disk_after f (fst (resolve_author src d a)) = f
   \<and> writes_extend x y (fst (resolve_author src d a))"
proof -
  let ?first = "try_source (search_openalex src) (author_name a) d (embedded_affiliations a)"
  have one: "appended (fst ?first) = [] \<and> disk_after f (fst ?first) = f
      \<and> writes_extend x y (fst ?first)" for f x y
    by (rule try_source_queries_only) (rule search_queries_only)
  show ?thesis
  proof (cases ?first)
    case (Pair asked r)
    show ?thesis
    proof (cases r)
      case (Inl e)
      with Pair one [of f x y] show ?thesis by (simp add: resolve_author_def)
    next
      case (Inr affs)
      let ?second = "try_source (search_semantic_scholar src) (author_name a) d affs"
      have two: "appended (fst ?second) = [] \<and> disk_after f (fst ?second) = f
          \<and> writes_extend x y (fst ?second)" for f x y
        by (rule try_source_queries_only) (rule search_queries_only)
      obtain asked_next r2 where s2: "?second = (asked_next, r2)" by (cases ?second)
      from Pair one have a1: "appended asked = []" "\<And>f. disk_after f asked = f"
        "\<And>x y. writes_extend x y asked" by (simp_all add: Pair)
      from s2 two have a2: "appended asked_next = []" "\<And>f. disk_after f asked_next = f"
        "\<And>x y. writes_extend x y asked_next" by (simp_all add: s2)
      from Pair Inr s2 have "fst (resolve_author src d a) = asked @ asked_next"
        by (simp add: resolve_author_def)
      with a1 a2 show ?thesis
        by (simp add: appended_append disk_after_append writes_extend_append loaded_def)
    qed
  qed
qed

lemma invariant_queries:
  assumes "pass_invariant stored s"
    and "appended asked = []" and "\<And>f. disk_after f asked = f"
    and "\<And>x y. writes_extend x y asked"
  shows "pass_invariant stored (s\<lparr>log := log s @ asked\<rparr>)"
  using assms
  by (simp add: pass_invariant_def appended_append disk_after_append writes_extend_append)

lemma invariant_append:
  assumes "pass_invariant stored s"
  shows "pass_invariant stored
           (s\<lparr>results := results s @ [r], log := log s @ [Append r], affiliations_found := n\<rparr>)"
  using assms
  by (simp add: pass_invariant_def appended_append disk_after_append writes_extend_append)

lemma invariant_save:
  assumes "pass_invariant stored s"
  shows "pass_invariant stored (save_checkpoint s)"
proof -
  from assms have w: "writes_extend (loaded stored) (loaded stored) (log s)"
    and r: "results s = loaded stored @ appended (log s)"
    and d: "disk s = disk_after stored (log s)" by (simp_all add: pass_invariant_def)
  from writes_extend_prefix [OF w] have
    "prefix (loaded (disk_after (Some (loaded stored)) (log s))) (results s)"
    by (simp add: r)
  with w r d show ?thesis
    by (simp add: pass_invariant_def save_checkpoint_def appended_append disk_after_append
        writes_extend_append)
qed

lemma invariant_counter:
  "pass_invariant stored s \<Longrightarrow> pass_invariant stored (s\<lparr>papers_processed := n\<rparr>)"
  by (simp add: pass_invariant_def)

lemma author_step_invariant:
  assumes "pass_invariant stored s"
  shows "pass_invariant stored (snd (author_step src t d a s))"
proof (cases "resolve_author src d a")
  case (Pair asked r)
  from resolve_queries_only [of src d a] Pair
  have q: "appended asked = []" "\<And>f. disk_after f asked = f" "\<And>x y. writes_extend x y asked"
    by simp_all
  have i: "pass_invariant stored (s\<lparr>log := log s @ asked\<rparr>)"
    using assms q by (rule invariant_queries)
  show ?thesis
  proof (cases r)
    case (Inl e)
    with Pair i show ?thesis by (simp add: author_step_def)
  next
    case (Inr affs)
    from invariant_append [OF i, where r = "record_author t d a affs"
        and n = "if affs = [] then affiliations_found s else affiliations_found s + 1"]
    show ?thesis using Pair Inr by (simp add: author_step_def)
  qed
qed

lemma authors_loop_invariant:
  "pass_invariant stored s \<Longrightarrow> pass_invariant stored (snd (authors_loop src t d listed s))"
proof (induction listed arbitrary: s)
  case Nil
  then show ?case by simp
next
  case (Cons a rest)
  from author_step_invariant [OF Cons.prems, of src t d a]
  have i: "pass_invariant stored (snd (author_step src t d a s))" .
  show ?case
  proof (cases "author_step src t d a s")
    case (Pair e s')
    with i have i': "pass_invariant stored s'" by simp
    show ?thesis
    proof (cases e)
      case None
      with Pair Cons.IH [OF i'] show ?thesis by simp
    next
      case (Some err)
      with Pair i' show ?thesis by simp
    qed
  qed
qed

lemma try_paper_invariant:
  assumes "pass_invariant stored s"
  shows "pass_invariant stored (snd (try_paper src t s))"
proof (cases "search_crossref src t")
  case (Pair asked r)
  then have "asked = [AskCrossref (clean_title t)]" by (simp add: search_crossref_def)
  then have q: "appended asked = []" "\<And>f. disk_after f asked = f"
    "\<And>x y. writes_extend x y asked" by simp_all
  have i: "pass_invariant stored (s\<lparr>log := log s @ asked\<rparr>)"
    using assms q by (rule invariant_queries)
  show ?thesis
  proof (cases r)
    case (Inl e)
    with Pair i show ?thesis by (simp add: try_paper_def)
  next
    case (Inr found)
    show ?thesis
    proof (cases found)
      case None
      with Pair Inr invariant_save [OF i] show ?thesis by (simp add: try_paper_def)
    next
      case (Some paper_data)
      let ?listed = "case item_author paper_data of None \<Rightarrow> [] | Some listed \<Rightarrow> listed"
      from authors_loop_invariant [OF i, of src t "DOI paper_data" ?listed]
      have j: "pass_invariant stored
          (snd (authors_loop src t (DOI paper_data) ?listed (s\<lparr>log := log s @ asked\<rparr>)))" .
      show ?thesis
      proof (cases "authors_loop src t (DOI paper_data) ?listed (s\<lparr>log := log s @ asked\<rparr>)")
        case (Pair e s')
        with j have j': "pass_invariant stored s'" by simp
        from Pair \<open>search_crossref src t = (asked, r)\<close> Inr Some j' invariant_save [OF j']
        show ?thesis by (cases e) (simp_all add: try_paper_def)
      qed
    qed
  qed
qed

lemma papers_loop_invariant:
  "pass_invariant stored s \<Longrightarrow> pass_invariant stored (papers_loop src ts s)"
proof (induction ts arbitrary: s)
  case Nil
  then show ?case by simp
next
  case (Cons t rest)
  from try_paper_invariant [OF Cons.prems, of src t]
  have i: "pass_invariant stored (snd (try_paper src t s))" .
  show ?case
  proof (cases "try_paper src t s")
    case (Pair e s')
    with i have i': "pass_invariant stored s'" by simp
    show ?thesis
    proof (cases e)
      case None
      from invariant_counter [OF i'] have
        "pass_invariant stored (s'\<lparr>papers_processed := papers_processed s' + 1\<rparr>)" .
      from Cons.IH [OF this] Pair None show ?thesis by simp
    next
      case (Some err)
      from Cons.IH [OF i'] Pair Some show ?thesis by simp
    qed
  qed
qed

lemma process_papers_invariant:
  "pass_invariant stored (process_papers src titles start_index stored)"
  unfolding process_papers_def
  by (rule papers_loop_invariant) (simp add: pass_invariant_def)

lemma resolve_author_no_save: "filter is_save (fst (resolve_author src d a)) = []"
  using resolve_author_asks [of src d a] by (auto simp: is_save_def)

lemma author_step_flag:
  "fst (author_step src t d a s) = None \<longleftrightarrow> \<not> raises (snd (resolve_author src d a))"
  by (cases "resolve_author src d a") (auto simp: author_step_def raises_def split: sum.splits)

lemma author_step_saves:
  "filter is_save (log (snd (author_step src t d a s))) = filter is_save (log s)
   \<and> disk (snd (author_step src t d a s)) = disk s"
  by (cases "resolve_author src d a")
     (use resolve_author_no_save [of src d a] in
       \<open>auto simp: author_step_def is_save_def split: sum.splits\<close>)

lemma authors_loop_flag:
  "fst (authors_loop src t d listed s) = None \<longleftrightarrow>
     list_all (\<lambda>a. \<not> raises (snd (resolve_author src d a))) listed"
proof (induction listed arbitrary: s)
  case Nil
  show ?case by simp
next
  case (Cons a rest)
  show ?case
  proof (cases "author_step src t d a s")
    case (Pair e s')
    with author_step_flag [of src t d a s]
    have f: "e = None \<longleftrightarrow> \<not> raises (snd (resolve_author src d a))" by simp
    show ?thesis
    proof (cases e)
      case None
      with Pair f Cons.IH [of s'] show ?thesis by simp
    next
      case (Some err)
      with Pair f show ?thesis by simp
    qed
  qed
qed

lemma authors_loop_saves:
  "filter is_save (log (snd (authors_loop src t d listed s))) = filter is_save (log s)
   \<and> disk (snd (authors_loop src t d listed s)) = disk s"
proof (induction listed arbitrary: s)
  case Nil
  show ?case by simp
next
  case (Cons a rest)
  show ?case
  proof (cases "author_step src t d a s")
    case (Pair e s')
    with author_step_saves [of src t d a s]
    have k: "filter is_save (log s') = filter is_save (log s)" "disk s' = disk s" by simp_all
    show ?thesis
    proof (cases e)
      case None
      with Pair k Cons.IH [of s'] show ?thesis by simp
    next
      case (Some err)
      with Pair k show ?thesis by simp
    qed
  qed
qed

lemma try_paper_flag: "fst (try_paper src t s) = None \<longleftrightarrow> paper_completes src t"
proof (cases "search_crossref src t")
  case (Pair asked r)
  show ?thesis
  proof (cases r)
    case (Inl e)
    with Pair show ?thesis by (simp add: try_paper_def paper_completes_def)
  next
    case (Inr found)
    show ?thesis
    proof (cases found)
      case None
      with Pair Inr show ?thesis by (simp add: try_paper_def paper_completes_def)
    next
      case (Some paper_data)
      let ?listed = "case item_author paper_data of None \<Rightarrow> [] | Some listed \<Rightarrow> listed"
      let ?s = "s\<lparr>log := log s @ asked\<rparr>"
      from authors_loop_flag [of src t "DOI paper_data" ?listed ?s] Pair Inr Some
      show ?thesis
        by (cases "authors_loop src t (DOI paper_data) ?listed ?s")
           (auto simp: try_paper_def paper_completes_def split: option.splits)
    qed
  qed
qed

lemma try_paper_completes:
  assumes "paper_completes src t"
  shows "\<exists>events. log (snd (try_paper src t s))
            = log s @ events @ [Save (results (snd (try_paper src t s)))]
          \<and> filter is_save events = []"
    and "disk (snd (try_paper src t s)) = Some (results (snd (try_paper src t s)))"
proof -
  obtain asked r where p: "search_crossref src t = (asked, r)" by (cases "search_crossref src t")
  then have a: "asked = [AskCrossref (clean_title t)]" by (simp add: search_crossref_def)
  have both: "(\<exists>events. log (snd (try_paper src t s))
            = log s @ events @ [Save (results (snd (try_paper src t s)))]
          \<and> filter is_save events = [])
     \<and> disk (snd (try_paper src t s)) = Some (results (snd (try_paper src t s)))"
  proof (cases r)
    case (Inl e)
    with p assms show ?thesis by (simp add: paper_completes_def)
  next
    case (Inr found)
    show ?thesis
    proof (cases found)
      case None
      with p Inr a show ?thesis
        by (simp add: try_paper_def save_checkpoint_def is_save_def)
    next
      case (Some paper_data)
      let ?listed = "case item_author paper_data of None \<Rightarrow> [] | Some listed \<Rightarrow> listed"
      let ?s = "s\<lparr>log := log s @ asked\<rparr>"
      obtain e s' where l: "authors_loop src t (DOI paper_data) ?listed ?s = (e, s')"
        by (cases "authors_loop src t (DOI paper_data) ?listed ?s")
      from try_paper_flag [of src t s] assms have "fst (try_paper src t s) = None" by simp
      with p Inr Some l have e: "e = None"
        by (auto simp: try_paper_def split: option.splits)
      with p Inr Some l have t: "try_paper src t s = (None, save_checkpoint s')"
        by (simp add: try_paper_def)
      have "\<exists>more. log s' = log ?s @ more \<and> filter is_save more = []"
      proof -
        have "\<exists>more. log (snd (authors_loop src t d ls st)) = log st @ more
                \<and> filter is_save more = []" for d ls st
        proof (induction ls arbitrary: st)
          case Nil
          show ?case by simp
        next
          case (Cons x xs)
          obtain e1 s1 where st: "author_step src t d x st = (e1, s1)"
            by (cases "author_step src t d x st")
          have one: "\<exists>more. log s1 = log st @ more \<and> filter is_save more = []"
            using author_step_log [of src t d x st] st resolve_author_no_save [of src d x]
            by (auto simp: is_save_def split: sum.splits)
          show ?case
          proof (cases e1)
            case None
            from Cons.IH [of s1] obtain m2 where
              "log (snd (authors_loop src t d xs s1)) = log s1 @ m2" "filter is_save m2 = []"
              by blast
            with one st None show ?thesis by auto
          next
            case (Some err)
            with one st show ?thesis by simp
          qed
        qed
        from this [of "DOI paper_data" ?listed ?s] l show ?thesis by simp
      qed
      then obtain more where m: "log s' = log ?s @ more" "filter is_save more = []" by blast
      have "log (save_checkpoint s') = log s @ (asked @ more) @ [Save (results (save_checkpoint s'))]"
        using m by (simp add: save_checkpoint_def)
      moreover have "filter is_save (asked @ more) = []" using m a by (simp add: is_save_def)
      ultimately show ?thesis using t by (auto simp: save_checkpoint_def)
    qed
  qed
  from both show "\<exists>events. log (snd (try_paper src t s))
            = log s @ events @ [Save (results (snd (try_paper src t s)))]
          \<and> filter is_save events = []"
    and "disk (snd (try_paper src t s)) = Some (results (snd (try_paper src t s)))"
    by blast+
qed

lemma try_paper_raises:
  assumes "\<not> paper_completes src t"
  shows "filter is_save (log (snd (try_paper src t s))) = filter is_save (log s)
         \<and> disk (snd (try_paper src t s)) = disk s"
proof -
  obtain asked r where p: "search_crossref src t = (asked, r)" by (cases "search_crossref src t")
  then have a: "asked = [AskCrossref (clean_title t)]" by (simp add: search_crossref_def)
  show ?thesis
  proof (cases r)
    case (Inl e)
    with p a show ?thesis by (simp add: try_paper_def is_save_def)
  next
    case (Inr found)
    show ?thesis
    proof (cases found)
      case None
      with p Inr assms show ?thesis by (simp add: paper_completes_def)
    next
      case (Some paper_data)
      let ?listed = "case item_author paper_data of None \<Rightarrow> [] | Some listed \<Rightarrow> listed"
      let ?s = "s\<lparr>log := log s @ asked\<rparr>"
      obtain e s' where l: "authors_loop src t (DOI paper_data) ?listed ?s = (e, s')"
        by (cases "authors_loop src t (DOI paper_data) ?listed ?s")
      from try_paper_flag [of src t s] assms have "fst (try_paper src t s) \<noteq> None" by simp
      with p Inr Some l obtain err where e: "e = Some err"
        by (cases e) (auto simp: try_paper_def)
      from authors_loop_saves [of src t "DOI paper_data" ?listed ?s] l a
      have "filter is_save (log s') = filter is_save (log s)" "disk s' = disk s"
        by (simp_all add: is_save_def)
      with p Inr Some l e show ?thesis by (simp add: try_paper_def)
    qed
  qed
qed

lemma try_paper_saves_count:
  "length (filter is_save (log (snd (try_paper src t s))))
     = length (filter is_save (log s)) + (if paper_completes src t then 1 else 0)"
proof (cases "paper_completes src t")
  case True
  from try_paper_completes(1) [OF True, of s] obtain events where
    "log (snd (try_paper src t s)) = log s @ events @ [Save (results (snd (try_paper src t s)))]"
    "filter is_save events = []" by blast
  with True show ?thesis by (simp add: is_save_def)
next
  case False
  with try_paper_raises [OF False, of s] show ?thesis by simp
qed

lemma papers_loop_counts:
  "length (filter is_save (log (papers_loop src ts s)))
     = length (filter is_save (log s)) + length (filter (paper_completes src) ts)
   \<and> papers_processed (papers_loop src ts s)
     = papers_processed s + length (filter (paper_completes src) ts)"
proof (induction ts arbitrary: s)
  case Nil
  show ?case by simp
next
  case (Cons t rest)
  obtain e s' where p: "try_paper src t s = (e, s')" by (cases "try_paper src t s")
  from try_paper_saves_count [of src t s] p
  have c: "length (filter is_save (log s'))
     = length (filter is_save (log s)) + (if paper_completes src t then 1 else 0)" by simp
  from try_paper_flag [of src t s] p have f: "e = None \<longleftrightarrow> paper_completes src t" by simp
  have pp: "papers_processed s' = papers_processed s"
  proof -
    have a1: "papers_processed (snd (author_step src t d a st)) = papers_processed st" for d a st
      by (cases "resolve_author src d a") (auto simp: author_step_def split: sum.splits)
    have a2: "papers_processed (snd (authors_loop src t d ls st)) = papers_processed st" for d ls st
    proof (induction ls arbitrary: st)
      case Nil
      show ?case by simp
    next
      case (Cons x xs)
      obtain e1 s1 where st: "author_step src t d x st = (e1, s1)"
        by (cases "author_step src t d x st")
      with a1 [of d x st] have "papers_processed s1 = papers_processed st" by simp
      with st Cons.IH [of s1] show ?case by (cases e1) simp_all
    qed
    obtain asked r where q: "search_crossref src t = (asked, r)" by (cases "search_crossref src t")
    have "papers_processed (snd (try_paper src t s)) = papers_processed s"
    proof (cases r)
      case (Inl err)
      with q show ?thesis by (simp add: try_paper_def)
    next
      case (Inr found)
      show ?thesis
      proof (cases found)
        case None
        with q Inr show ?thesis by (simp add: try_paper_def save_checkpoint_def)
      next
        case (Some paper_data)
        let ?listed = "case item_author paper_data of None \<Rightarrow> [] | Some listed \<Rightarrow> listed"
        let ?s = "s\<lparr>log := log s @ asked\<rparr>"
        from a2 [of "DOI paper_data" ?listed ?s] q Inr Some show ?thesis
          by (cases "authors_loop src t (DOI paper_data) ?listed ?s")
             (auto simp: try_paper_def save_checkpoint_def split: option.splits)
      qed
    qed
    with p show ?thesis by simp
  qed
  show ?case
  proof (cases e)
    case None
    with f have "paper_completes src t" by simp
    with p None c pp Cons.IH [of "s'\<lparr>papers_processed := papers_processed s' + 1\<rparr>"]
    show ?thesis by simp
  next
    case (Some err)
    with f have "\<not> paper_completes src t" by simp
    with p Some c pp Cons.IH [of s'] show ?thesis by simp
  qed
qed

lemma pass_counts:
  "length (filter is_save (log (process_papers src titles start_index stored)))
     = length (filter (paper_completes src) (drop start_index titles))
   \<and> papers_processed (process_papers src titles start_index stored)
     = length (filter (paper_completes src) (drop start_index titles))"
  unfolding process_papers_def using papers_loop_counts by simp

lemma checkpoint_contents:
  "results (process_papers src titles start_index stored)
     = loaded stored @ appended (log (process_papers src titles start_index stored))
   \<and> disk (process_papers src titles start_index stored)
     = disk_after stored (log (process_papers src titles start_index stored))
   \<and> (log (process_papers src titles start_index stored) = before @ Save rs # after
      \<longrightarrow> rs = loaded stored @ appended before
        \<and> prefix (loaded (disk_after stored before)) rs
        \<and> length rs = length (loaded stored) + length (appended before))"
proof (intro conjI impI)
  let ?run = "process_papers src titles start_index stored"
  have inv: "pass_invariant stored ?run" by (rule process_papers_invariant)
  then show "results ?run = loaded stored @ appended (log ?run)"
    and "disk ?run = disk_after stored (log ?run)" by (simp_all add: pass_invariant_def)
  assume split: "log ?run = before @ Save rs # after"
  from inv have "writes_extend (loaded stored) (loaded stored) (before @ Save rs # after)"
    by (simp add: pass_invariant_def split)
  then have "rs = loaded stored @ appended before
      \<and> prefix (loaded (disk_after (Some (loaded stored)) before)) rs"
    unfolding writes_extend_append by auto
  then show "rs = loaded stored @ appended before"
    and "prefix (loaded (disk_after stored before)) rs"
    and "length rs = length (loaded stored) + length (appended before)"
    by (auto simp: loaded_disk_after [of stored])
qed

text \<open>
  C8, amended: in one pass, every checkpoint write holds exactly the records of the file
  at the start followed by one record for every (paper, author) pair processed up to
  the write, the pairs of earlier papers that raised included, and it extends what the
  file held just before the write; so the file only grows. At the end of the pass the
  file holds what the last write left, and \<open>results\<close> holds every pair processed.
  The file is written once for every paper whose processing completes without an
  exception, as the last event of that paper, and then holds all of \<open>results\<close>; a
  paper that raises writes nothing and leaves the file as it was. So the writes of a
  pass, and the papers it counts as processed, are as many as the papers that complete.
\<close>

theorem checkpoint_writes:
  "results (process_papers src titles start_index stored)
     = loaded stored @ appended (log (process_papers src titles start_index stored))
   \<and> disk (process_papers src titles start_index stored)
     = disk_after stored (log (process_papers src titles start_index stored))
   \<and> (log (process_papers src titles start_index stored) = before @ Save rs # after
      \<longrightarrow> rs = loaded stored @ appended before
        \<and> prefix (loaded (disk_after stored before)) rs
        \<and> length rs = length (loaded stored) + length (appended before))
   \<and> length (filter is_save (log (process_papers src titles start_index stored)))
     = length (filter (paper_completes src) (drop start_index titles))
   \<and> papers_processed (process_papers src titles start_index stored)
     = length (filter (paper_completes src) (drop start_index titles))
   \<and> ((fst (try_paper src t s) = None) = paper_completes src t)
   \<and> (paper_completes src t \<longrightarrow>
        (\<exists>events. log (snd (try_paper src t s))
                    = log s @ events @ [Save (results (snd (try_paper src t s)))]
                  \<and> filter is_save events = [])
        \<and> disk (snd (try_paper src t s)) = Some (results (snd (try_paper src t s))))
   \<and> (\<not> paper_completes src t \<longrightarrow>
        filter is_save (log (snd (try_paper src t s))) = filter is_save (log s)
        \<and> disk (snd (try_paper src t s)) = disk s)"
proof -
  note old = checkpoint_contents [of src titles start_index stored before rs after]
  note counts = pass_counts [of src titles start_index stored]
  have flag: "(fst (try_paper src t s) = None) = paper_completes src t"
    by (rule try_paper_flag)
  have written: "paper_completes src t \<longrightarrow>
        (\<exists>events. log (snd (try_paper src t s))
                    = log s @ events @ [Save (results (snd (try_paper src t s)))]
                  \<and> filter is_save events = [])
        \<and> disk (snd (try_paper src t s)) = Some (results (snd (try_paper src t s)))"
    using try_paper_completes [of src t s] by (intro impI conjI)
  have skipped: "\<not> paper_completes src t \<longrightarrow>
        filter is_save (log (snd (try_paper src t s))) = filter is_save (log s)
        \<and> disk (snd (try_paper src t s)) = disk s"
    using try_paper_raises [of src t s] by (intro impI)
  show ?thesis
    apply (intro conjI)
           apply (rule old [THEN conjunct1])
          apply (rule old [THEN conjunct2, THEN conjunct1])
         apply (rule old [THEN conjunct2, THEN conjunct2])
        apply (rule counts [THEN conjunct1])
       apply (rule counts [THEN conjunct2])
      apply (rule flag)
     apply (rule written)
    apply (rule skipped)
    done
qed

lemma example_raising_run:
  "process_papers (broken_sources [ada, bo]) [lit ''T''] 0 None
     = \<lparr>results = [ada_record_for ''T''], disk = None,
        log = [AskCrossref (lit ''T''), Append (ada_record_for ''T''), AskOpenAlex (lit ''10.1/x'')],
        papers_processed = 0, affiliations_found = 1\<rparr>"
  by (simp add: pass_simps source_simps)

lemma example_mixed_run:
  "log (process_papers mixed_sources [lit ''T'', lit ''U''] 0 None)
     = [AskCrossref (lit ''T''), Append (ada_record_for ''T''), AskOpenAlex (lit ''10.1/x''),
        AskCrossref (lit ''U''), Append (ada_record_for ''U''),
        Save [ada_record_for ''T'', ada_record_for ''U'']]"
  by (simp add: pass_simps source_simps mixed_sources_def)

lemma upt_four: "[0..<4] = [0, 1, 2, 3]"
  by (simp add: upt_rec)

text \<open>
  C8, as stated, fails: the file is written once per paper, so between the append of a
  record and the write that follows the file is one record short; and a paper that
  raises at its second author leaves the pass without any write, with one pair
  processed and no file.
\<close>

theorem checkpoint_lags_counterexample:
  "log (process_papers (example_sources [ada]) [lit ''T''] 0 None)
      = [AskCrossref (lit ''T''), Append (ada_record_for ''T''), Save [ada_record_for ''T'']]
   \<and> disk_after None [AskCrossref (lit ''T''), Append (ada_record_for ''T'')] = None
   \<and> appended [AskCrossref (lit ''T''), Append (ada_record_for ''T'')] = [ada_record_for ''T'']
   \<and> \<not> claimed_length_invariant None
         (log (process_papers (example_sources [ada]) [lit ''T''] 0 None))
   \<and> disk (process_papers (broken_sources [ada, bo]) [lit ''T''] 0 None) = None
   \<and> results (process_papers (broken_sources [ada, bo]) [lit ''T''] 0 None) = [ada_record_for ''T'']"
  by (simp add: example_first_run example_raising_run claimed_length_invariant_def upt_four
      loaded_def)

lemmas completes_simps = paper_completes_def raises_def search_crossref_def clean_title_def
  resolve_author_def try_source_def mixed_sources_def ada_def bo_def

lemma example_mixed_completes:
  "paper_completes mixed_sources (lit ''U'') \<and> \<not> paper_completes mixed_sources (lit ''T'')"
  by (simp add: completes_simps source_simps)

theorem checkpoint_writes_witness:
  "log (process_papers mixed_sources [lit ''T'', lit ''U''] 0 None)
     = [AskCrossref (lit ''T''), Append (ada_record_for ''T''), AskOpenAlex (lit ''10.1/x''),
        AskCrossref (lit ''U''), Append (ada_record_for ''U'')]
       @ Save [ada_record_for ''T'', ada_record_for ''U''] # []
   \<and> [ada_record_for ''T'', ada_record_for ''U'']
     = loaded None
       @ appended [AskCrossref (lit ''T''), Append (ada_record_for ''T''),
                   AskOpenAlex (lit ''10.1/x''), AskCrossref (lit ''U''),
                   Append (ada_record_for ''U'')]
   \<and> paper_completes mixed_sources (lit ''U'')
   \<and> \<not> paper_completes mixed_sources (lit ''T'')
   \<and> length (filter is_save (log (process_papers mixed_sources [lit ''T'', lit ''U''] 0 None))) = 1
   \<and> disk (snd (try_paper mixed_sources (lit ''U'')
         \<lparr>results = [ada_record_for ''T''], disk = None, log = [], papers_processed = 0,
          affiliations_found = 1\<rparr>))
       = Some [ada_record_for ''T'', ada_record_for ''U'']
   \<and> disk (snd (try_paper mixed_sources (lit ''T'')
         \<lparr>results = [], disk = None, log = [], papers_processed = 0,
          affiliations_found = 0\<rparr>))
       = None"
  using checkpoint_writes
    [of mixed_sources "[lit ''T'', lit ''U'']" 0 None
        "[AskCrossref (lit ''T''), Append (ada_record_for ''T''), AskOpenAlex (lit ''10.1/x''),
          AskCrossref (lit ''U''), Append (ada_record_for ''U'')]"
        "[ada_record_for ''T'', ada_record_for ''U'']" "[]" "lit ''U''"
        "\<lparr>results = [ada_record_for ''T''], disk = None, log = [], papers_processed = 0,
          affiliations_found = 1\<rparr>"]
    checkpoint_writes
    [of mixed_sources "[lit ''T'', lit ''U'']" 0 None
        "[AskCrossref (lit ''T''), Append (ada_record_for ''T''), AskOpenAlex (lit ''10.1/x''),
          AskCrossref (lit ''U''), Append (ada_record_for ''U'')]"
        "[ada_record_for ''T'', ada_record_for ''U'']" "[]" "lit ''T''"
        "\<lparr>results = [], disk = None, log = [], papers_processed = 0,
          affiliations_found = 0\<rparr>"]
  by (simp add: example_mixed_run example_mixed_completes loaded_def is_save_def)
     (simp add: pass_simps source_simps mixed_sources_def)

end
